theory Spec2Isabelle
  imports Main
begin

section \<open>Data model of the .ini document\<close>

text \<open>
  The input of the parser is a buffer of bytes.  A byte is a \<^typ>\<open>char\<close>, so that the
  inputs discussed in the sources can be written as string literals.
\<close>

type_synonym byte = char

definition newline :: byte where
  "newline = CHR 0x0A"

text \<open>\<^verbatim>\<open>isWhitepace\<close> of both translation units: space, tab, carriage return, line feed.\<close>

definition isWhitepace :: "byte \<Rightarrow> bool" where
  "isWhitepace utf8SingleByteCharacter =
     (utf8SingleByteCharacter = CHR '' '' \<or>
      utf8SingleByteCharacter = CHR 0x09 \<or>
      utf8SingleByteCharacter = CHR 0x0D \<or>
      utf8SingleByteCharacter = CHR 0x0A)"

definition AllocationChunkSize :: nat where
  "AllocationChunkSize = 4096"

text \<open>
  \<^verbatim>\<open>sizeof\<close> and \<^verbatim>\<open>alignof\<close> of a record type depend on the platform, so they are
  parameters of the model.  \<open>lp64\<close> is the layout of a 64-bit platform: \<^verbatim>\<open>Line\<close> holds
  three pointers and one \<^verbatim>\<open>size_t\<close>, \<^verbatim>\<open>SectionLine\<close> two more \<^verbatim>\<open>size_t\<close>,
  \<^verbatim>\<open>PropertyLine\<close> four more.
\<close>

record type_layout =
  sizeof :: nat
  alignof :: nat

record layout =
  Line_t :: type_layout
  SectionLine_t :: type_layout
  PropertyLine_t :: type_layout

definition lp64 :: layout where
  "lp64 = \<lparr> Line_t = \<lparr> sizeof = 32, alignof = 8 \<rparr>,
            SectionLine_t = \<lparr> sizeof = 48, alignof = 8 \<rparr>,
            PropertyLine_t = \<lparr> sizeof = 64, alignof = 8 \<rparr> \<rparr>"

text \<open>
  What C++ guarantees of the three record types: an alignment is positive, a size is a
  positive multiple of the alignment, and a derived record contains its base.
\<close>

definition type_layout_ok :: "type_layout \<Rightarrow> bool" where
  "type_layout_ok T = (0 < alignof T \<and> 0 < sizeof T \<and> sizeof T mod alignof T = 0)"

definition layout_ok :: "layout \<Rightarrow> bool" where
  "layout_ok L =
     (type_layout_ok (Line_t L) \<and> type_layout_ok (SectionLine_t L) \<and>
      type_layout_ok (PropertyLine_t L) \<and>
      sizeof (Line_t L) \<le> sizeof (SectionLine_t L) \<and>
      sizeof (Line_t L) \<le> sizeof (PropertyLine_t L))"

text \<open>\<^verbatim>\<open>getSizePlusAlignmentPadding<T>()\<close> of the file parser.\<close>

definition getSizePlusAlignmentPadding :: "type_layout \<Rightarrow> nat" where
  "getSizePlusAlignmentPadding T =
     (let misalignment = sizeof T mod alignof T in
      if misalignment > 0 then sizeof T + (alignof T - misalignment) else sizeof T)"

text \<open>
  The classification of a logical line is the branch that \<^verbatim>\<open>submitLine\<close> takes.  The
  source has no tag for it: the branch decides which record type is allocated
  (\<^verbatim>\<open>Line\<close> for a plain and for a malformed line, \<^verbatim>\<open>SectionLine\<close>,
  \<^verbatim>\<open>PropertyLine\<close>).  The model keeps the branch in the field \<open>Kind\<close>.
\<close>

datatype line_kind = Plain | Section | Property | Malformed

text \<open>
  A line record.  \<open>Contents\<close> are the \<open>Length\<close> bytes that \<^verbatim>\<open>std::copy_n\<close> copied
  behind the record; a byte that was read past the end of the input buffer has no defined
  value and is \<open>None\<close>.  The name and value fields exist in the derived records only and
  are \<open>0\<close> otherwise.  The links \<^verbatim>\<open>Previous\<close> and \<^verbatim>\<open>Next\<close> are never assigned
  by the file parser and are left out.
\<close>

record line =
  Kind :: line_kind
  Contents :: "byte option list"
  Length :: nat
  NameStartIndex :: nat
  NameLength :: nat
  ValueStartIndex :: nat
  ValueLength :: nat

text \<open>
  Memory.  Every \<^verbatim>\<open>new std::uint8_t[n]\<close> yields a block of its own, described by its
  size.  \<open>loadedLinesMemory\<close> is the vector of the chunks, \<open>createdLinesMemory\<close> the
  set of the dedicated blocks, kept in the order of insertion.  An address is a byte
  offset into a chunk or the start of a dedicated block; \<open>InvalidAddress\<close> is what the
  vector access \<^verbatim>\<open>loadedLinesMemory[chunkCount - 1]\<close> yields on an empty vector.
\<close>

datatype address = ChunkAddress nat nat | BlockAddress nat | InvalidAddress

text \<open>
  The document model, as the file parser uses it: the header with the members in this
  form (the chunks as a vector, the index entries as \<^verbatim>\<open>IndexedSection\<close>) is not among
  the sources, so that the fields are taken from their uses in the file parser and in
  the constructors.  \<open>storedLines\<close> are the records that were placed in the document's
  memory, oldest first, each with its address.  \<open>sections\<close> is the index from a section
  name to the address of its entry.
\<close>

record IniDocumentModel =
  loadedLinesMemory :: "nat list"
  createdLinesMemory :: "nat list"
  storedLines :: "(address \<times> line) list"
  firstLine :: "address option"
  sections :: "string \<rightharpoonup> address"

section \<open>The file parser\<close>

text \<open>
  A pointer into the input buffer is its offset from \<^verbatim>\<open>fileBegin\<close>; a pointer that
  may be \<^verbatim>\<open>nullptr\<close> is an \<open>option\<close>.  \<open>fileBegin\<close> is the numeric address of the
  first byte, \<open>fileContents\<close> are the bytes from there to \<^verbatim>\<open>fileEnd\<close>.
\<close>

record FileParser =
  target :: IniDocumentModel
  remainingChunkByteCount :: nat
  currentSection :: "address option"
  currentLine :: "address option"
  fileBegin :: nat
  fileContents :: "byte list"
  parsePosition :: nat
  lineStart :: nat
  nameStart :: "nat option"
  nameEnd :: "nat option"
  valueStart :: "nat option"
  valueEnd :: "nat option"
  sectionFound :: bool
  equalsSignFound :: bool
  lineIsMalformed :: bool

definition fileEnd :: "FileParser \<Rightarrow> nat" where
  "fileEnd p = length (fileContents p)"

text \<open>\<^verbatim>\<open>*this->parsePosition\<close>, read only where \<^verbatim>\<open>parsePosition < fileEnd\<close>.\<close>

definition current :: "FileParser \<Rightarrow> byte" where
  "current p = fileContents p ! parsePosition p"

text \<open>
  The constructor.  \<^verbatim>\<open>parsePosition\<close> and \<^verbatim>\<open>lineStart\<close> start as \<^verbatim>\<open>nullptr\<close> and
  are assigned by \<^verbatim>\<open>ParseInto\<close> before they are read; \<^verbatim>\<open>target\<close> likewise.
\<close>

definition IniDocumentModel_empty :: IniDocumentModel where
  "IniDocumentModel_empty =
     \<lparr> loadedLinesMemory = [], createdLinesMemory = [], storedLines = [],
       firstLine = None, sections = Map.empty \<rparr>"

definition FileParser_new :: "nat \<Rightarrow> byte list \<Rightarrow> FileParser" where
  "FileParser_new fileAddress bytes =
     \<lparr> target = IniDocumentModel_empty,
       remainingChunkByteCount = 0,
       currentSection = None,
       currentLine = None,
       fileBegin = fileAddress,
       fileContents = bytes,
       parsePosition = 0,
       lineStart = 0,
       nameStart = None,
       nameEnd = None,
       valueStart = None,
       valueEnd = None,
       sectionFound = False,
       equalsSignFound = False,
       lineIsMalformed = False \<rparr>"

subsection \<open>Allocation\<close>

text \<open>
  \<^verbatim>\<open>allocateChunked<T>(extraByteCount)\<close>.  Sizes are natural numbers: the sizes of
  objects in memory stay far below half of the range of \<^verbatim>\<open>std::size_t\<close>, so that
  \<^verbatim>\<open>totalByteCount * 2\<close> does not wrap.
\<close>

definition allocateChunked :: "type_layout \<Rightarrow> nat \<Rightarrow> FileParser \<Rightarrow> address \<times> FileParser" where
  "allocateChunked T extraByteCount p =
     (let totalByteCount = getSizePlusAlignmentPadding T + extraByteCount in
      if totalByteCount * 2 < AllocationChunkSize then
        if remainingChunkByteCount p < totalByteCount then
          (ChunkAddress (length (loadedLinesMemory (target p))) 0,
           p\<lparr> target := (target p)\<lparr> loadedLinesMemory :=
                  loadedLinesMemory (target p) @ [AllocationChunkSize] \<rparr>,
              remainingChunkByteCount := AllocationChunkSize - totalByteCount \<rparr>)
        else
          (let chunkCount = length (loadedLinesMemory (target p)) in
           (if chunkCount = 0 then InvalidAddress
            else ChunkAddress (chunkCount - 1)
                   (AllocationChunkSize - remainingChunkByteCount p),
            p\<lparr> remainingChunkByteCount := remainingChunkByteCount p - totalByteCount \<rparr>))
      else
        (BlockAddress (length (createdLinesMemory (target p))),
         p\<lparr> target := (target p)\<lparr> createdLinesMemory :=
                createdLinesMemory (target p) @ [totalByteCount] \<rparr> \<rparr>))"

text \<open>
  \<^verbatim>\<open>std::copy_n(contents, byteCount, ...)\<close> reads \<open>byteCount\<close> bytes of the input
  buffer from the offset \<open>contents\<close> on.
\<close>

definition readByte :: "byte list \<Rightarrow> nat \<Rightarrow> byte option" where
  "readByte bytes i = (if i < length bytes then Some (bytes ! i) else None)"

definition copy_n :: "byte list \<Rightarrow> nat \<Rightarrow> nat \<Rightarrow> byte option list" where
  "copy_n bytes contents byteCount = map (readByte bytes) [contents ..< contents + byteCount]"

text \<open>Writing a record to the memory at an address, and changing it through the pointer.\<close>

definition placeLine :: "address \<Rightarrow> line \<Rightarrow> FileParser \<Rightarrow> FileParser" where
  "placeLine a l p =
     p\<lparr> target := (target p)\<lparr> storedLines := storedLines (target p) @ [(a, l)] \<rparr> \<rparr>"

definition modifyLine :: "address \<Rightarrow> (line \<Rightarrow> line) \<Rightarrow> FileParser \<Rightarrow> FileParser" where
  "modifyLine a f p =
     p\<lparr> target := (target p)\<lparr> storedLines :=
          map (\<lambda>(a', l). if a' = a then (a', f l) else (a', l)) (storedLines (target p)) \<rparr> \<rparr>"

text \<open>
  \<^verbatim>\<open>allocateLineChunked<TLine>(contents, byteCount)\<close>; \<open>k\<close> is the classification that
  made the caller choose \<open>TLine\<close>.
\<close>

definition allocateLineChunked ::
  "type_layout \<Rightarrow> line_kind \<Rightarrow> nat \<Rightarrow> nat \<Rightarrow> FileParser \<Rightarrow> address \<times> FileParser" where
  "allocateLineChunked TLine k contents byteCount p =
     (let (newLine, p1) = allocateChunked TLine byteCount p in
      (newLine,
       placeLine newLine
         \<lparr> Kind = k, Contents = copy_n (fileContents p) contents byteCount,
           Length = byteCount, NameStartIndex = 0, NameLength = 0,
           ValueStartIndex = 0, ValueLength = 0 \<rparr> p1))"

subsection \<open>The state of the current line\<close>

definition resetState :: "FileParser \<Rightarrow> FileParser" where
  "resetState p =
     p\<lparr> lineStart := parsePosition p,
        nameStart := None, nameEnd := None,
        valueStart := None, valueEnd := None,
        sectionFound := False, equalsSignFound := False, lineIsMalformed := False \<rparr>"

text \<open>
  The difference \<^verbatim>\<open>a - b\<close> of two pointers of which the second may be \<^verbatim>\<open>nullptr\<close>:
  against \<^verbatim>\<open>nullptr\<close> the machine yields the numeric address of \<open>a\<close>.  No difference
  that the parser takes between two pointers into the buffer is negative.
\<close>

definition ptrdiff :: "nat \<Rightarrow> nat \<Rightarrow> nat option \<Rightarrow> nat" where
  "ptrdiff base a b = (case b of Some b' \<Rightarrow> a - b' | None \<Rightarrow> base + a)"

subsection \<open>Skipping to the end of the line\<close>

function parseComment :: "FileParser \<Rightarrow> FileParser" where
  "parseComment p =
     (if parsePosition p < fileEnd p then
        if current p = newline then p
        else parseComment (p\<lparr> parsePosition := parsePosition p + 1 \<rparr>)
      else p)"
  by pat_completeness auto
termination
  by (relation "measure (\<lambda>p. fileEnd p - parsePosition p)") (auto simp: fileEnd_def)

declare parseComment.simps [simp del]

function skipMalformedLine :: "FileParser \<Rightarrow> FileParser" where
  "skipMalformedLine p =
     (if parsePosition p < fileEnd p then
        if current p = newline then p
        else skipMalformedLine (p\<lparr> parsePosition := parsePosition p + 1 \<rparr>)
      else p)"
  by pat_completeness auto
termination
  by (relation "measure (\<lambda>p. fileEnd p - parsePosition p)") (auto simp: fileEnd_def)

declare skipMalformedLine.simps [simp del]

text \<open>\<^verbatim>\<open>parseMalformedLine\<close>: the flag is set, then the loop \<open>skipMalformedLine\<close> runs.\<close>

definition parseMalformedLine :: "FileParser \<Rightarrow> FileParser" where
  "parseMalformedLine p = skipMalformedLine (p\<lparr> lineIsMalformed := True \<rparr>)"

subsection \<open>Submitting a line\<close>

text \<open>
  \<^verbatim>\<open>generatePropertyLine\<close> and \<^verbatim>\<open>generateSectionLine\<close>.  The local strings
  \<^verbatim>\<open>propertyName\<close> and \<^verbatim>\<open>sectionName\<close> are filled and dropped; the code that would
  enter the line in the index is commented out in the source, so that nothing of it is
  here.
\<close>

definition generatePropertyLine :: "layout \<Rightarrow> FileParser \<Rightarrow> address \<times> FileParser" where
  "generatePropertyLine L p =
     (let (newPropertyLine, p1) =
            allocateLineChunked (PropertyLine_t L) Property
              (lineStart p) (parsePosition p - lineStart p) p;
          p2 = (if valueStart p \<noteq> None \<and> valueEnd p \<noteq> None then
                  modifyLine newPropertyLine
                    (\<lambda>l. l\<lparr> ValueStartIndex := the (valueStart p) - lineStart p,
                            ValueLength :=
                              ptrdiff (fileBegin p) (the (valueEnd p)) (nameStart p) \<rparr>) p1
                else
                  modifyLine newPropertyLine
                    (\<lambda>l. l\<lparr> ValueStartIndex := 0, ValueLength := 0 \<rparr>) p1);
          p3 = (if nameStart p \<noteq> None \<and> nameEnd p \<noteq> None then
                  modifyLine newPropertyLine
                    (\<lambda>l. l\<lparr> NameStartIndex := the (nameStart p) - lineStart p,
                            NameLength := the (nameEnd p) - the (nameStart p) \<rparr>) p2
                else
                  modifyLine newPropertyLine
                    (\<lambda>l. l\<lparr> NameStartIndex := 0, NameLength := 0 \<rparr>) p2)
      in (newPropertyLine, p3))"

definition generateSectionLine :: "layout \<Rightarrow> FileParser \<Rightarrow> address \<times> FileParser" where
  "generateSectionLine L p =
     (let (newSectionLine, p1) =
            allocateLineChunked (SectionLine_t L) Section
              (lineStart p) (parsePosition p - lineStart p) p;
          p2 = (if nameStart p \<noteq> None \<and> nameEnd p \<noteq> None then
                  modifyLine newSectionLine
                    (\<lambda>l. l\<lparr> NameStartIndex := the (nameStart p) - lineStart p,
                            NameLength := the (nameEnd p) - the (nameStart p) \<rparr>) p1
                else
                  modifyLine newSectionLine
                    (\<lambda>l. l\<lparr> NameStartIndex := 0, NameLength := 0 \<rparr>) p1)
      in (newSectionLine, p2))"

text \<open>
  \<^verbatim>\<open>submitLine\<close>.  For a malformed line the source overwrites its local pointer with
  a \<^verbatim>\<open>new Line()\<close> that is not entered anywhere; the record in the chunk stays.
\<close>

definition submitLine :: "layout \<Rightarrow> FileParser \<Rightarrow> FileParser" where
  "submitLine L p0 =
     (let p = p0\<lparr> parsePosition := parsePosition p0 + 1 \<rparr> in
      resetState
        (if lineIsMalformed p then
           snd (allocateLineChunked (Line_t L) Malformed
                  (lineStart p) (parsePosition p - lineStart p) p)
         else if equalsSignFound p then snd (generatePropertyLine L p)
         else if sectionFound p then snd (generateSectionLine L p)
         else
           snd (allocateLineChunked (Line_t L) Plain
                  (lineStart p) (parsePosition p - lineStart p) p)))"

text \<open>
  Allocation and submission leave the scanning state alone: \<open>scanning_kept p q\<close> says
  that \<open>q\<close> differs from \<open>p\<close> in the target document and the remaining chunk bytes
  at most.
\<close>

definition scanning_kept :: "FileParser \<Rightarrow> FileParser \<Rightarrow> bool" where
  "scanning_kept p q =
     (currentSection q = currentSection p \<and> currentLine q = currentLine p \<and>
      fileBegin q = fileBegin p \<and> fileContents q = fileContents p \<and>
      parsePosition q = parsePosition p \<and> lineStart q = lineStart p \<and>
      nameStart q = nameStart p \<and> nameEnd q = nameEnd p \<and>
      valueStart q = valueStart p \<and> valueEnd q = valueEnd p \<and>
      sectionFound q = sectionFound p \<and> equalsSignFound q = equalsSignFound p \<and>
      lineIsMalformed q = lineIsMalformed p)"

lemma scanning_kept_trans:
  "scanning_kept p q \<Longrightarrow> scanning_kept q r \<Longrightarrow> scanning_kept p r"
  by (simp add: scanning_kept_def)

lemma allocateChunked_kept: "scanning_kept p (snd (allocateChunked T n p))"
  by (simp add: scanning_kept_def allocateChunked_def Let_def)

lemma placeLine_kept: "scanning_kept p (placeLine a l p)"
  by (simp add: scanning_kept_def placeLine_def)

lemma modifyLine_kept: "scanning_kept p (modifyLine a f p)"
  by (simp add: scanning_kept_def modifyLine_def)

lemma allocateLineChunked_kept: "scanning_kept p (snd (allocateLineChunked T k c n p))"
  using scanning_kept_trans [OF allocateChunked_kept placeLine_kept]
  by (simp add: allocateLineChunked_def Let_def case_prod_beta)

lemma generateSectionLine_kept: "scanning_kept p (snd (generateSectionLine L p))"
proof -
  have "scanning_kept p (modifyLine a f (snd (allocateLineChunked T k c n p)))" for a f T k c n
    using scanning_kept_trans [OF allocateLineChunked_kept modifyLine_kept] .
  then show ?thesis
    by (simp add: generateSectionLine_def Let_def case_prod_beta)
qed

lemma generatePropertyLine_kept: "scanning_kept p (snd (generatePropertyLine L p))"
proof -
  have "scanning_kept p (modifyLine a f (modifyLine a g (snd (allocateLineChunked T k c n p))))"
    for a f g T k c n
    using scanning_kept_trans [OF allocateLineChunked_kept
            scanning_kept_trans [OF modifyLine_kept modifyLine_kept]] .
  then show ?thesis
    by (simp add: generatePropertyLine_def Let_def case_prod_beta)
qed

lemma submitLine_kept:
  "\<exists>q. scanning_kept (p\<lparr> parsePosition := parsePosition p + 1 \<rparr>) q \<and>
       submitLine L p = resetState q"
proof -
  let ?p = "p\<lparr> parsePosition := parsePosition p + 1 \<rparr>"
  let ?q = "if lineIsMalformed ?p then
           snd (allocateLineChunked (Line_t L) Malformed
                  (lineStart ?p) (parsePosition ?p - lineStart ?p) ?p)
         else if equalsSignFound ?p then snd (generatePropertyLine L ?p)
         else if sectionFound ?p then snd (generateSectionLine L ?p)
         else
           snd (allocateLineChunked (Line_t L) Plain
                  (lineStart ?p) (parsePosition ?p - lineStart ?p) ?p)"
  have "scanning_kept ?p ?q"
    using allocateLineChunked_kept [of ?p] generatePropertyLine_kept [of ?p]
      generateSectionLine_kept [of ?p]
    by (simp only: if_split) blast
  moreover have "submitLine L p = resetState ?q"
    by (simp only: submitLine_def Let_def)
  ultimately show ?thesis by blast
qed

lemma submitLine_parsePosition [simp]:
  "parsePosition (submitLine L p) = parsePosition p + 1"
  using submitLine_kept [of p L] by (auto simp: resetState_def scanning_kept_def)

lemma submitLine_fileContents [simp]:
  "fileContents (submitLine L p) = fileContents p"
  using submitLine_kept [of p L] by (auto simp: resetState_def scanning_kept_def)

lemma submitLine_fileEnd [simp]:
  "fileEnd (submitLine L p) = fileEnd p"
  by (simp add: fileEnd_def)

subsection \<open>Names and values\<close>

definition dquote :: byte where
  "dquote = CHR 0x22"

text \<open>
  One iteration of the loop of \<^verbatim>\<open>parseName\<close>, from the read of the current byte to
  the increment of the parse position.  The three local flags are \<open>isInQuote\<close>,
  \<open>quoteEncountered\<close> and \<open>isInSection\<close>.  \<open>Inl\<close> is a \<^verbatim>\<open>return\<close>, \<open>Inr\<close> the
  next iteration.  \<open>nameIterationEnd\<close> is the tail of the loop body, behind the
  \<^verbatim>\<open>switch\<close>.
\<close>

type_synonym name_flags = "bool \<times> bool \<times> bool"

definition nameIterationEnd ::
  "byte \<Rightarrow> name_flags \<Rightarrow> FileParser \<Rightarrow> FileParser + name_flags \<times> FileParser" where
  "nameIterationEnd c flags p =
     (case flags of (isInQuote, quoteEncountered, isInSection) \<Rightarrow>
        if c = newline then
          Inl (if isInQuote then p\<lparr> lineIsMalformed := True \<rparr> else p)
        else Inr (flags, p\<lparr> parsePosition := parsePosition p + 1 \<rparr>))"

definition parseName_body ::
  "layout \<Rightarrow> name_flags \<Rightarrow> FileParser \<Rightarrow> FileParser + name_flags \<times> FileParser" where
  "parseName_body L flags p =
     (case flags of (isInQuote, quoteEncountered, isInSection) \<Rightarrow>
        let c = current p in
        if isInQuote then
          nameIterationEnd c (c \<noteq> dquote, quoteEncountered, isInSection)
            (p\<lparr> nameEnd := Some (parsePosition p) \<rparr>)
        else if c = CHR '';'' \<or> c = CHR ''#'' then Inl (parseMalformedLine p)
        else if c = CHR ''['' then
          (if nameStart p \<noteq> None \<or> isInSection then Inl (parseMalformedLine p)
           else
             let p1 = (if sectionFound p then submitLine L p else p) in
             nameIterationEnd c (isInQuote, quoteEncountered, True)
               (p1\<lparr> nameStart := Some (parsePosition p1 + 1) \<rparr>))
        else if c = CHR '']'' then
          (if nameStart p = None \<or> \<not> isInSection then Inl (parseMalformedLine p)
           else
             nameIterationEnd c (isInQuote, quoteEncountered, False)
               (p\<lparr> nameEnd := Some (parsePosition p), sectionFound := True \<rparr>))
        else if c = dquote then
          (if nameStart p \<noteq> None \<or> quoteEncountered then Inl (parseMalformedLine p)
           else
             nameIterationEnd c (True, True, isInSection)
               (p\<lparr> nameStart := Some (parsePosition p + 1) \<rparr>))
        else if c = CHR ''='' then
          Inl (if isInSection then parseMalformedLine p else p)
        else if \<not> isWhitepace c then
          (if quoteEncountered then Inl (parseMalformedLine p)
           else
             nameIterationEnd c flags
               (p\<lparr> nameStart :=
                     (if nameStart p = None then Some (parsePosition p) else nameStart p),
                   nameEnd := Some (parsePosition p + 1) \<rparr>))
        else nameIterationEnd c flags p)"

lemma parseName_body_progress:
  assumes "parseName_body L flags p = Inr (flags', p')"
  shows "fileContents p' = fileContents p \<and> parsePosition p < parsePosition p'"
  using assms
  by (auto simp: parseName_body_def nameIterationEnd_def Let_def
           split: if_splits prod.splits)

function parseName_loop :: "layout \<Rightarrow> name_flags \<Rightarrow> FileParser \<Rightarrow> FileParser" where
  "parseName_loop L flags p =
     (if parsePosition p < fileEnd p then
        case parseName_body L flags p of
          Inl p' \<Rightarrow> p'
        | Inr (flags', p') \<Rightarrow> parseName_loop L flags' p'
      else p)"
  by pat_completeness auto
termination
proof (relation "measure (\<lambda>(L, flags, p). fileEnd p - parsePosition p)")
  fix L flags p x flags' p'
  assume "parsePosition p < fileEnd p" "parseName_body L flags p = Inr x" "(flags', p') = x"
  then show "((L, flags', p'), (L, flags, p)) \<in> measure (\<lambda>(L, flags, p). fileEnd p - parsePosition p)"
    using parseName_body_progress [of L flags p flags' p'] by (auto simp: fileEnd_def)
qed simp

declare parseName_loop.simps [simp del]

definition parseName :: "layout \<Rightarrow> FileParser \<Rightarrow> FileParser" where
  "parseName L p = parseName_loop L (False, False, False) p"

text \<open>
  One iteration of the loop of \<^verbatim>\<open>parseValue\<close>; the local flags are \<open>isInQuote\<close> and
  \<open>quoteEncountered\<close>.
\<close>

type_synonym value_flags = "bool \<times> bool"

definition valueIterationEnd ::
  "byte \<Rightarrow> value_flags \<Rightarrow> FileParser \<Rightarrow> FileParser + value_flags \<times> FileParser" where
  "valueIterationEnd c flags p =
     (case flags of (isInQuote, quoteEncountered) \<Rightarrow>
        if c = newline then
          Inl (if isInQuote then p\<lparr> lineIsMalformed := True \<rparr> else p)
        else Inr (flags, p\<lparr> parsePosition := parsePosition p + 1 \<rparr>))"

definition parseValue_body ::
  "value_flags \<Rightarrow> FileParser \<Rightarrow> FileParser + value_flags \<times> FileParser" where
  "parseValue_body flags p =
     (case flags of (isInQuote, quoteEncountered) \<Rightarrow>
        let c = current p in
        if isInQuote then
          valueIterationEnd c (c \<noteq> dquote, quoteEncountered)
            (p\<lparr> valueEnd := Some (parsePosition p) \<rparr>)
        else if c = CHR '';'' \<or> c = CHR ''#'' then Inl (parseComment p)
        else if c = dquote then
          (if valueStart p \<noteq> None \<or> quoteEncountered then Inl (parseMalformedLine p)
           else
             valueIterationEnd c (True, True)
               (p\<lparr> valueStart := Some (parsePosition p + 1) \<rparr>))
        else if c = CHR ''='' then Inl (parseMalformedLine p)
        else if \<not> isWhitepace c then
          (if quoteEncountered then Inl (parseMalformedLine p)
           else
             valueIterationEnd c flags
               (p\<lparr> valueStart :=
                     (if valueStart p = None then Some (parsePosition p) else valueStart p),
                   valueEnd := Some (parsePosition p + 1) \<rparr>))
        else valueIterationEnd c flags p)"

lemma parseValue_body_progress:
  assumes "parseValue_body flags p = Inr (flags', p')"
  shows "fileContents p' = fileContents p \<and> parsePosition p < parsePosition p'"
  using assms
  by (auto simp: parseValue_body_def valueIterationEnd_def Let_def
           split: if_splits prod.splits)

function parseValue_loop :: "value_flags \<Rightarrow> FileParser \<Rightarrow> FileParser" where
  "parseValue_loop flags p =
     (if parsePosition p < fileEnd p then
        case parseValue_body flags p of
          Inl p' \<Rightarrow> p'
        | Inr (flags', p') \<Rightarrow> parseValue_loop flags' p'
      else p)"
  by pat_completeness auto
termination
proof (relation "measure (\<lambda>(flags, p). fileEnd p - parsePosition p)")
  fix flags p x flags' p'
  assume "parsePosition p < fileEnd p" "parseValue_body flags p = Inr x" "(flags', p') = x"
  then show "((flags', p'), (flags, p)) \<in> measure (\<lambda>(flags, p). fileEnd p - parsePosition p)"
    using parseValue_body_progress [of flags p flags' p'] by (auto simp: fileEnd_def)
qed simp

declare parseValue_loop.simps [simp del]

definition parseValue :: "FileParser \<Rightarrow> FileParser" where
  "parseValue p = parseValue_loop (False, False) p"

subsection \<open>The main loop\<close>

text \<open>The sub-parsers keep the buffer and never move the parse position backwards.\<close>

lemma parseComment_progress:
  "fileContents (parseComment p) = fileContents p \<and>
   parsePosition p \<le> parsePosition (parseComment p) \<and>
   (parsePosition p < fileEnd p \<and> current p \<noteq> newline \<longrightarrow>
      parsePosition p < parsePosition (parseComment p))"
proof (induction p rule: parseComment.induct)
  case (1 p)
  show ?case
  proof (cases "parsePosition p < fileEnd p \<and> current p \<noteq> newline")
    case True
    then show ?thesis
      using "1.IH" by (subst (1 2 3) parseComment.simps) auto
  next
    case False
    then show ?thesis
      by (subst (1 2 3) parseComment.simps) auto
  qed
qed

lemma skipMalformedLine_progress:
  "fileContents (skipMalformedLine p) = fileContents p \<and>
   parsePosition p \<le> parsePosition (skipMalformedLine p) \<and>
   (parsePosition p < fileEnd p \<and> current p \<noteq> newline \<longrightarrow>
      parsePosition p < parsePosition (skipMalformedLine p))"
proof (induction p rule: skipMalformedLine.induct)
  case (1 p)
  show ?case
  proof (cases "parsePosition p < fileEnd p \<and> current p \<noteq> newline")
    case True
    then show ?thesis
      using "1.IH" by (subst (1 2 3) skipMalformedLine.simps) auto
  next
    case False
    then show ?thesis
      by (subst (1 2 3) skipMalformedLine.simps) auto
  qed
qed

lemma parseMalformedLine_progress:
  "fileContents (parseMalformedLine p) = fileContents p \<and>
   parsePosition p \<le> parsePosition (parseMalformedLine p) \<and>
   (parsePosition p < fileEnd p \<and> current p \<noteq> newline \<longrightarrow>
      parsePosition p < parsePosition (parseMalformedLine p))"
  using skipMalformedLine_progress [of "p\<lparr> lineIsMalformed := True \<rparr>"]
  by (simp add: parseMalformedLine_def fileEnd_def current_def)

lemma parseName_body_return:
  assumes "parseName_body L flags p = Inl p'"
  shows "fileContents p' = fileContents p \<and> parsePosition p \<le> parsePosition p'"
proof -
  have m: "fileContents (parseMalformedLine p) = fileContents p"
    "parsePosition p \<le> parsePosition (parseMalformedLine p)"
    using parseMalformedLine_progress [of p] by simp_all
  show ?thesis
    using assms m
    by (auto simp: parseName_body_def nameIterationEnd_def Let_def
             split: if_splits prod.splits)
qed

lemma parseName_loop_progress:
  "fileContents (parseName_loop L flags p) = fileContents p \<and>
   parsePosition p \<le> parsePosition (parseName_loop L flags p)"
proof (induction L flags p rule: parseName_loop.induct)
  case (1 L flags p)
  show ?case
  proof (cases "parsePosition p < fileEnd p")
    case False
    then show ?thesis by (simp add: parseName_loop.simps [of L flags p])
  next
    case True
    show ?thesis
    proof (cases "parseName_body L flags p")
      case (Inl p')
      then show ?thesis
        using True parseName_body_return [OF Inl]
        by (simp add: parseName_loop.simps [of L flags p])
    next
      case (Inr x)
      obtain flags' p' where x: "x = (flags', p')" by (cases x)
      show ?thesis
        using True Inr x "1.IH" [OF True Inr x [symmetric]]
          parseName_body_progress [of L flags p flags' p']
        by (simp add: parseName_loop.simps [of L flags p])
    qed
  qed
qed

lemma parseName_first_byte:
  assumes "parsePosition p < fileEnd p" "current p \<noteq> newline" "current p \<noteq> CHR ''=''"
  shows "parsePosition p < parsePosition (parseName L p)"
proof (cases "parseName_body L (False, False, False) p")
  case (Inl p')
  have m: "parsePosition p < parsePosition (parseMalformedLine p)"
    using assms parseMalformedLine_progress [of p] by simp
  have "parsePosition p < parsePosition p'"
    using Inl assms(2,3) m
    by (auto simp: parseName_body_def nameIterationEnd_def Let_def split: if_splits)
  then show ?thesis
    using assms Inl
    by (simp add: parseName_def parseName_loop.simps [of L "(False, False, False)" p])
next
  case (Inr x)
  obtain flags' p' where x: "x = (flags', p')" by (cases x)
  show ?thesis
    using assms Inr x parseName_body_progress [of L "(False, False, False)" p flags' p']
      parseName_loop_progress [of L flags' p']
    by (simp add: parseName_def parseName_loop.simps [of L "(False, False, False)" p])
qed

lemma parseValue_body_return:
  assumes "parseValue_body flags p = Inl p'"
  shows "fileContents p' = fileContents p \<and> parsePosition p \<le> parsePosition p'"
proof -
  have m: "fileContents (parseMalformedLine p) = fileContents p"
    "parsePosition p \<le> parsePosition (parseMalformedLine p)"
    using parseMalformedLine_progress [of p] by simp_all
  have c: "fileContents (parseComment p) = fileContents p"
    "parsePosition p \<le> parsePosition (parseComment p)"
    using parseComment_progress [of p] by simp_all
  show ?thesis
    using assms m c
    by (auto simp: parseValue_body_def valueIterationEnd_def Let_def
             split: if_splits prod.splits)
qed

lemma parseValue_loop_progress:
  "fileContents (parseValue_loop flags p) = fileContents p \<and>
   parsePosition p \<le> parsePosition (parseValue_loop flags p)"
proof (induction flags p rule: parseValue_loop.induct)
  case (1 flags p)
  show ?case
  proof (cases "parsePosition p < fileEnd p")
    case False
    then show ?thesis by (simp add: parseValue_loop.simps [of flags p])
  next
    case True
    show ?thesis
    proof (cases "parseValue_body flags p")
      case (Inl p')
      then show ?thesis
        using True parseValue_body_return [OF Inl]
        by (simp add: parseValue_loop.simps [of flags p])
    next
      case (Inr x)
      obtain flags' p' where x: "x = (flags', p')" by (cases x)
      show ?thesis
        using True Inr x "1.IH" [OF True Inr x [symmetric]]
          parseValue_body_progress [of flags p flags' p']
        by (simp add: parseValue_loop.simps [of flags p])
    qed
  qed
qed

lemma parseValue_first_byte:
  assumes "parsePosition p < fileEnd p" "current p \<noteq> newline"
  shows "parsePosition p < parsePosition (parseValue p)"
proof (cases "parseValue_body (False, False) p")
  case (Inl p')
  have m: "parsePosition p < parsePosition (parseMalformedLine p)"
    using assms parseMalformedLine_progress [of p] by simp
  have c: "parsePosition p < parsePosition (parseComment p)"
    using assms parseComment_progress [of p] by simp
  have "parsePosition p < parsePosition p'"
    using Inl assms(2) m c
    by (auto simp: parseValue_body_def valueIterationEnd_def Let_def split: if_splits)
  then show ?thesis
    using assms Inl
    by (simp add: parseValue_def parseValue_loop.simps [of "(False, False)" p])
next
  case (Inr x)
  obtain flags' p' where x: "x = (flags', p')" by (cases x)
  show ?thesis
    using assms Inr x parseValue_body_progress [of "(False, False)" p flags' p']
      parseValue_loop_progress [of flags' p']
    by (simp add: parseValue_def parseValue_loop.simps [of "(False, False)" p])
qed

text \<open>One iteration of the loop of \<^verbatim>\<open>ParseInto\<close>: the \<^verbatim>\<open>switch\<close> on the current byte.\<close>

definition ParseInto_body :: "layout \<Rightarrow> FileParser \<Rightarrow> FileParser" where
  "ParseInto_body L p =
     (let c = current p in
      if c = CHR ''#'' \<or> c = CHR '';'' then parseComment p
      else if c = CHR ''='' then
        (if equalsSignFound p then parseMalformedLine p
         else p\<lparr> equalsSignFound := True, parsePosition := parsePosition p + 1 \<rparr>)
      else if c = newline then submitLine L p
      else if isWhitepace c then p\<lparr> parsePosition := parsePosition p + 1 \<rparr>
      else if equalsSignFound p then parseValue p
      else parseName L p)"

lemma ParseInto_body_progress:
  assumes "parsePosition p < fileEnd p"
  shows "fileContents (ParseInto_body L p) = fileContents p \<and>
         parsePosition p < parsePosition (ParseInto_body L p)"
proof -
  have nl: "CHR ''#'' \<noteq> newline" "CHR '';'' \<noteq> newline" "CHR ''='' \<noteq> newline"
    by (simp_all add: newline_def)
  have c: "current p = CHR ''#'' \<or> current p = CHR '';'' \<Longrightarrow>
      fileContents (parseComment p) = fileContents p \<and>
      parsePosition p < parsePosition (parseComment p)"
    using assms nl parseComment_progress [of p] by auto
  have m: "current p = CHR ''='' \<Longrightarrow>
      fileContents (parseMalformedLine p) = fileContents p \<and>
      parsePosition p < parsePosition (parseMalformedLine p)"
    using assms nl parseMalformedLine_progress [of p] by auto
  have v: "current p \<noteq> newline \<Longrightarrow>
      fileContents (parseValue p) = fileContents p \<and>
      parsePosition p < parsePosition (parseValue p)"
    using assms parseValue_first_byte [of p] parseValue_loop_progress [of "(False, False)" p]
    by (simp add: parseValue_def)
  have n: "current p \<noteq> newline \<Longrightarrow> current p \<noteq> CHR ''='' \<Longrightarrow>
      fileContents (parseName L p) = fileContents p \<and>
      parsePosition p < parsePosition (parseName L p)"
    using assms parseName_first_byte [of p L]
      parseName_loop_progress [of L "(False, False, False)" p]
    by (simp add: parseName_def)
  show ?thesis
    unfolding ParseInto_body_def Let_def
    using c m v n by (simp split: if_splits)
qed

function ParseInto_loop :: "layout \<Rightarrow> FileParser \<Rightarrow> FileParser" where
  "ParseInto_loop L p =
     (if parsePosition p < fileEnd p then ParseInto_loop L (ParseInto_body L p) else p)"
  by pat_completeness auto
termination
proof (relation "measure (\<lambda>(L, p). fileEnd p - parsePosition p)")
  fix L p
  assume "parsePosition p < fileEnd p"
  then show "((L, ParseInto_body L p), (L, p)) \<in> measure (\<lambda>(L, p). fileEnd p - parsePosition p)"
    using ParseInto_body_progress [of p L] by (auto simp: fileEnd_def)
qed simp

declare ParseInto_loop.simps [simp del]

text \<open>
  \<^verbatim>\<open>ParseInto\<close>: the state is reset, the loop runs from the first byte, and what is
  left behind the last line break is submitted as a line of its own.
\<close>

definition ParseInto :: "layout \<Rightarrow> IniDocumentModel \<Rightarrow> FileParser \<Rightarrow> FileParser" where
  "ParseInto L documentModel p0 =
     (let p1 = (resetState (p0\<lparr> target := documentModel \<rparr>))
                 \<lparr> currentSection := None, currentLine := None \<rparr>;
          p2 = p1\<lparr> parsePosition := 0, lineStart := 0 \<rparr>;
          p3 = ParseInto_loop L p2
      in if parsePosition p3 > lineStart p3 then submitLine L p3 else p3)"

text \<open>
  The lines that parsing a buffer stores, in the order in which they were stored, and the
  document that parsing a buffer into an empty document yields.
\<close>

definition parseDocument :: "layout \<Rightarrow> nat \<Rightarrow> byte list \<Rightarrow> IniDocumentModel" where
  "parseDocument L fileAddress bytes =
     target (ParseInto L IniDocumentModel_empty (FileParser_new fileAddress bytes))"

definition parsedLines :: "layout \<Rightarrow> nat \<Rightarrow> byte list \<Rightarrow> line list" where
  "parsedLines L fileAddress bytes = map snd (storedLines (parseDocument L fileAddress bytes))"

section \<open>The memory estimator\<close>

text \<open>
  The estimator compares and subtracts its pointers and never reads through them, so
  that here a pointer is its numeric address and \<^verbatim>\<open>nullptr\<close> is \<open>0\<close>.  The field
  \<open>estimatorLineIsMalformed\<close> is \<^verbatim>\<open>lineIsMalformed\<close> of the source.  \<open>endedLines\<close>
  is not in the source: it records, for every call of \<^verbatim>\<open>EndLine\<close>, the branch taken
  and the number of bytes of the line, and nothing is computed from it.  The byte count
  is a natural number: a count that wraps around \<^verbatim>\<open>std::size_t\<close> needs a buffer of
  that size.
\<close>

definition growUntilAligned :: "nat \<Rightarrow> nat \<Rightarrow> nat" where
  "growUntilAligned byteCount alignment =
     (let extraByteCount = byteCount mod alignment in
      if extraByteCount > 0 then byteCount + (alignment - extraByteCount) else byteCount)"

record MemoryEstimator =
  ByteCount :: nat
  lineStartPosition :: nat
  sectionStarted :: bool
  sectionEnded :: bool
  foundAssignment :: bool
  estimatorLineIsMalformed :: bool
  endedLines :: "(line_kind \<times> nat) list"

definition MemoryEstimator_new :: MemoryEstimator where
  "MemoryEstimator_new =
     \<lparr> ByteCount = 0, lineStartPosition = 0, sectionStarted = False, sectionEnded = False,
       foundAssignment = False, estimatorLineIsMalformed = False, endedLines = [] \<rparr>"

text \<open>The branch of \<^verbatim>\<open>EndLine\<close>: the classification and the record type it counts.\<close>

definition endedKind :: "MemoryEstimator \<Rightarrow> line_kind" where
  "endedKind e =
     (if estimatorLineIsMalformed e then Malformed
      else if foundAssignment e then Property
      else if sectionStarted e \<and> sectionEnded e then Section
      else Plain)"

definition recordType :: "layout \<Rightarrow> line_kind \<Rightarrow> type_layout" where
  "recordType L k =
     (case k of Malformed \<Rightarrow> Line_t L | Property \<Rightarrow> PropertyLine_t L
      | Section \<Rightarrow> SectionLine_t L | Plain \<Rightarrow> Line_t L)"

text \<open>\<^verbatim>\<open>sizeof(T[2]) / 2\<close> is written out as it stands.\<close>

definition EndLine :: "layout \<Rightarrow> nat \<Rightarrow> MemoryEstimator \<Rightarrow> MemoryEstimator" where
  "EndLine L filePosition e =
     (let T = recordType L (endedKind e);
          byteCount1 = growUntilAligned (ByteCount e) (alignof T);
          byteCount2 = byteCount1 + (2 * sizeof T) div 2;
          byteCount3 = byteCount2 + (filePosition - lineStartPosition e)
      in e\<lparr> ByteCount := byteCount3,
             lineStartPosition := filePosition,
             sectionStarted := False, sectionEnded := False,
             foundAssignment := False, estimatorLineIsMalformed := False,
             endedLines := endedLines e @ [(endedKind e, filePosition - lineStartPosition e)] \<rparr>)"

definition BeginLine :: "layout \<Rightarrow> nat \<Rightarrow> MemoryEstimator \<Rightarrow> MemoryEstimator" where
  "BeginLine L filePosition e =
     (let e1 = (if lineStartPosition e \<noteq> 0 then EndLine L filePosition e else e)
      in e1\<lparr> lineStartPosition := filePosition \<rparr>)"

definition BeginSection :: "layout \<Rightarrow> nat \<Rightarrow> MemoryEstimator \<Rightarrow> MemoryEstimator" where
  "BeginSection L filePosition e =
     (let e1 = (if sectionEnded e then EndLine L filePosition e else e)
      in e1\<lparr> sectionStarted := True \<rparr>)"

definition EndSection :: "MemoryEstimator \<Rightarrow> MemoryEstimator" where
  "EndSection e = (if sectionStarted e then e\<lparr> sectionEnded := True \<rparr> else e)"

definition AddAssignment :: "MemoryEstimator \<Rightarrow> MemoryEstimator" where
  "AddAssignment e =
     (if foundAssignment e then e\<lparr> estimatorLineIsMalformed := True \<rparr>
      else e\<lparr> foundAssignment := True \<rparr>)"

text \<open>
  The local variables of \<^verbatim>\<open>estimateRequiredMemory\<close>, and one iteration of its loop:
  \<open>position\<close> is the pointer \<^verbatim>\<open>fileBegin\<close> and \<open>c\<close> the byte it points to.
\<close>

record estimate_locals =
  memoryEstimate :: MemoryEstimator
  previousWasNewLine :: bool
  isInsideQuote :: bool
  encounteredComment :: bool

definition estimate_body :: "layout \<Rightarrow> nat \<Rightarrow> byte \<Rightarrow> estimate_locals \<Rightarrow> estimate_locals" where
  "estimate_body L position c s0 =
     (let s = s0\<lparr> previousWasNewLine := (c = newline) \<rparr> in
      if previousWasNewLine s then
        s\<lparr> isInsideQuote := False, encounteredComment := False,
           memoryEstimate := EndLine L (position + 1) (memoryEstimate s) \<rparr>
      else if isInsideQuote s then
        (if c = dquote then s\<lparr> isInsideQuote := False \<rparr> else s)
      else if \<not> encounteredComment s then
        (if c = CHR '';'' \<or> c = CHR ''#'' then s\<lparr> encounteredComment := True \<rparr>
         else if c = CHR ''['' then
           s\<lparr> memoryEstimate := BeginSection L position (memoryEstimate s) \<rparr>
         else if c = CHR '']'' then s\<lparr> memoryEstimate := EndSection (memoryEstimate s) \<rparr>
         else if c = CHR ''='' then s\<lparr> memoryEstimate := AddAssignment (memoryEstimate s) \<rparr>
         else if c = dquote then s\<lparr> isInsideQuote := True \<rparr>
         else s)
      else s)"

text \<open>
  The loop advances by one byte in every iteration: it is a recursion over the bytes
  from \<^verbatim>\<open>fileBegin\<close> to \<^verbatim>\<open>fileEnd\<close>.
\<close>

fun estimate_loop :: "layout \<Rightarrow> nat \<Rightarrow> byte list \<Rightarrow> estimate_locals \<Rightarrow> estimate_locals" where
  "estimate_loop L position [] s = s"
| "estimate_loop L position (c # rest) s =
     estimate_loop L (position + 1) rest (estimate_body L position c s)"

definition estimate_start :: "layout \<Rightarrow> nat \<Rightarrow> estimate_locals" where
  "estimate_start L fileAddress =
     \<lparr> memoryEstimate = BeginLine L fileAddress MemoryEstimator_new,
       previousWasNewLine = False, isInsideQuote = False, encounteredComment = False \<rparr>"

text \<open>The estimator when \<^verbatim>\<open>estimateRequiredMemory\<close> returns, and the value returned.\<close>

definition estimateScan :: "layout \<Rightarrow> nat \<Rightarrow> byte list \<Rightarrow> MemoryEstimator" where
  "estimateScan L fileAddress bytes =
     (let s = estimate_loop L fileAddress bytes (estimate_start L fileAddress)
      in if \<not> previousWasNewLine s then
           EndLine L (fileAddress + length bytes) (memoryEstimate s)
         else memoryEstimate s)"

definition estimateRequiredMemory :: "layout \<Rightarrow> nat \<Rightarrow> byte list \<Rightarrow> nat" where
  "estimateRequiredMemory L fileAddress bytes = ByteCount (estimateScan L fileAddress bytes)"


section \<open>The allocator of the file parser\<close>

text \<open>
  What holds of the allocation state between two calls: at most a chunk remains, bytes
  remain only if a chunk exists, and every chunk has the chunk size.  The constructor
  establishes it and \<^verbatim>\<open>allocateChunked\<close> keeps it.
\<close>

definition allocation_ok :: "FileParser \<Rightarrow> bool" where
  "allocation_ok p =
     (remainingChunkByteCount p \<le> AllocationChunkSize \<and>
      (0 < remainingChunkByteCount p \<longrightarrow> loadedLinesMemory (target p) \<noteq> []) \<and>
      (\<forall>chunk \<in> set (loadedLinesMemory (target p)). chunk = AllocationChunkSize))"


lemma getSizePlusAlignmentPadding_ge: "sizeof T \<le> getSizePlusAlignmentPadding T"
  by (simp add: getSizePlusAlignmentPadding_def Let_def)



section \<open>The estimate of the required memory\<close>





















section \<open>The second equals sign\<close>

text \<open>
  The bytes of a line that stand outside quotes and comments, told by a scanner of its
  own: a double quote opens a quote that the next double quote closes, and outside a
  quote \<open>;\<close> and \<open>#\<close> open a comment that lasts to the end of the line.  The scanner
  counts the equals signs outside both.  It is the reading of quotes and comments of the
  scan of \<^verbatim>\<open>estimateRequiredMemory\<close>.
\<close>

record lexer =
  inQuote :: bool
  inComment :: bool
  assignments :: nat

definition lexer_start :: lexer where
  "lexer_start = \<lparr> inQuote = False, inComment = False, assignments = 0 \<rparr>"

definition lexer_step :: "lexer \<Rightarrow> byte \<Rightarrow> lexer" where
  "lexer_step s c =
     (if inComment s then s
      else if inQuote s then (if c = dquote then s\<lparr> inQuote := False \<rparr> else s)
      else if c = CHR '';'' \<or> c = CHR ''#'' then s\<lparr> inComment := True \<rparr>
      else if c = dquote then s\<lparr> inQuote := True \<rparr>
      else if c = CHR ''='' then s\<lparr> assignments := assignments s + 1 \<rparr>
      else s)"

definition equalsOutsideQuotesAndComments :: "byte list \<Rightarrow> nat" where
  "equalsOutsideQuotesAndComments bytes = assignments (foldl lexer_step lexer_start bytes)"

text \<open>The bytes of a line that were read from inside the buffer.\<close>

primrec definedBytes :: "byte option list \<Rightarrow> byte list" where
  "definedBytes [] = []"
| "definedBytes (x # xs) = (case x of None \<Rightarrow> definedBytes xs | Some c \<Rightarrow> c # definedBytes xs)"

definition lexed :: "byte list \<Rightarrow> nat \<Rightarrow> nat \<Rightarrow> lexer" where
  "lexed bytes s e = foldl lexer_step lexer_start (take (e - s) (drop s bytes))"

lemma lexed_refl [simp]: "lexed bytes s s = lexer_start"
  by (simp add: lexed_def)

lemma lexed_Suc:
  assumes "s \<le> e" "e < length bytes"
  shows "lexed bytes s (Suc e) = lexer_step (lexed bytes s e) (bytes ! e)"
proof -
  have "Suc e - s = Suc (e - s)" using assms by simp
  moreover have "e - s < length (drop s bytes)" using assms by simp
  moreover have "drop s bytes ! (e - s) = bytes ! e" using assms by simp
  ultimately show ?thesis
    by (simp add: lexed_def take_Suc_conv_app_nth)
qed

lemma lexer_comment_absorbs: "inComment s \<Longrightarrow> foldl lexer_step s xs = s"
  by (induction xs) (simp_all add: lexer_step_def)

lemma lexed_split:
  assumes "s \<le> e" "e \<le> e'"
  shows "lexed bytes s e' = foldl lexer_step (lexed bytes s e) (take (e' - e) (drop e bytes))"
proof -
  have "e' - s = (e - s) + (e' - e)" using assms by simp
  then have "take (e' - s) (drop s bytes) =
      take (e - s) (drop s bytes) @ take (e' - e) (drop (e - s) (drop s bytes))"
    by (simp add: take_add)
  moreover have "drop (e - s) (drop s bytes) = drop e bytes" using assms by simp
  ultimately show ?thesis by (simp add: lexed_def)
qed

lemma lexed_in_comment:
  assumes "s \<le> e" "e \<le> e'" "inComment (lexed bytes s e)"
  shows "lexed bytes s e' = lexed bytes s e"
  using lexed_split [OF assms(1,2)] lexer_comment_absorbs [OF assms(3)] by simp

lemma lexed_past_end:
  assumes "length bytes \<le> e"
  shows "lexed bytes s e = lexed bytes s (length bytes)"
  using assms by (simp add: lexed_def)

lemma definedBytes_append: "definedBytes (xs @ ys) = definedBytes xs @ definedBytes ys"
  by (induction xs) (simp_all split: option.splits)

lemma definedBytes_copy_n:
  "definedBytes (copy_n bytes s k) = take k (drop s bytes)"
proof (induction k)
  case 0
  then show ?case by (simp add: copy_n_def)
next
  case (Suc k)
  have c: "copy_n bytes s (Suc k) = copy_n bytes s k @ [readByte bytes (s + k)]"
    by (simp add: copy_n_def)
  show ?case
  proof (cases "s + k < length bytes")
    case True
    then have "take (Suc k) (drop s bytes) = take k (drop s bytes) @ [bytes ! (s + k)]"
      by (simp add: take_Suc_conv_app_nth)
    then show ?thesis
      using True Suc by (simp add: c definedBytes_append readByte_def)
  next
    case False
    then show ?thesis
      using Suc by (simp add: c definedBytes_append readByte_def)
  qed
qed

lemma equalsOutsideQuotesAndComments_copy_n:
  "equalsOutsideQuotesAndComments (definedBytes (copy_n bytes s (e - s))) = assignments (lexed bytes s e)"
  by (simp add: equalsOutsideQuotesAndComments_def definedBytes_copy_n lexed_def)

lemma skipMalformedLine_result:
  "\<exists>k. skipMalformedLine p = p\<lparr> parsePosition := k \<rparr> \<and> parsePosition p \<le> k \<and>
       (parsePosition p \<le> fileEnd p \<longrightarrow> k \<le> fileEnd p) \<and>
       (\<forall>i. parsePosition p \<le> i \<and> i < k \<longrightarrow> fileContents p ! i \<noteq> newline)"
proof (induction p rule: skipMalformedLine.induct)
  case (1 p)
  show ?case
  proof (cases "parsePosition p < fileEnd p \<and> current p \<noteq> newline")
    case True
    let ?q = "p\<lparr> parsePosition := parsePosition p + 1 \<rparr>"
    obtain k where k: "skipMalformedLine ?q = ?q\<lparr> parsePosition := k \<rparr>"
      "parsePosition ?q \<le> k" "parsePosition ?q \<le> fileEnd ?q \<longrightarrow> k \<le> fileEnd ?q"
      "\<forall>i. parsePosition ?q \<le> i \<and> i < k \<longrightarrow> fileContents ?q ! i \<noteq> newline"
      using "1.IH" True by blast
    have "skipMalformedLine p = skipMalformedLine ?q"
      using True by (subst skipMalformedLine.simps) simp
    moreover have "\<forall>i. parsePosition p \<le> i \<and> i < k \<longrightarrow> fileContents p ! i \<noteq> newline"
    proof (intro allI impI)
      fix i assume i: "parsePosition p \<le> i \<and> i < k"
      show "fileContents p ! i \<noteq> newline"
      proof (cases "i = parsePosition p")
        case True
        then show ?thesis using \<open>parsePosition p < fileEnd p \<and> current p \<noteq> newline\<close>
          by (simp add: current_def)
      next
        case False
        then show ?thesis using i k(4) by simp
      qed
    qed
    ultimately show ?thesis
      using k(1,2,3) True by (intro exI [of _ k]) (simp add: fileEnd_def)
  next
    case False
    then have "skipMalformedLine p = p"
      by (subst skipMalformedLine.simps) auto
    then show ?thesis
      by (intro exI [of _ "parsePosition p"]) auto
  qed
qed

lemma parseMalformedLine_result:
  "\<exists>k. parseMalformedLine p = p\<lparr> lineIsMalformed := True, parsePosition := k \<rparr> \<and>
       parsePosition p \<le> k \<and> (parsePosition p \<le> fileEnd p \<longrightarrow> k \<le> fileEnd p) \<and>
       (\<forall>i. parsePosition p \<le> i \<and> i < k \<longrightarrow> fileContents p ! i \<noteq> newline)"
  using skipMalformedLine_result [of "p\<lparr> lineIsMalformed := True \<rparr>"]
  by (simp add: parseMalformedLine_def fileEnd_def)

lemma parseComment_result:
  "\<exists>k. parseComment p = p\<lparr> parsePosition := k \<rparr> \<and> parsePosition p \<le> k \<and>
       (parsePosition p \<le> fileEnd p \<longrightarrow> k \<le> fileEnd p) \<and>
       (k < fileEnd p \<longrightarrow> fileContents p ! k = newline) \<and>
       (parsePosition p < fileEnd p \<and> current p \<noteq> newline \<longrightarrow> parsePosition p < k) \<and>
       (\<forall>i. parsePosition p \<le> i \<and> i < k \<longrightarrow> fileContents p ! i \<noteq> newline)"
proof (induction p rule: parseComment.induct)
  case (1 p)
  show ?case
  proof (cases "parsePosition p < fileEnd p \<and> current p \<noteq> newline")
    case True
    let ?q = "p\<lparr> parsePosition := parsePosition p + 1 \<rparr>"
    obtain k where k: "parseComment ?q = ?q\<lparr> parsePosition := k \<rparr>"
      "parsePosition ?q \<le> k" "parsePosition ?q \<le> fileEnd ?q \<longrightarrow> k \<le> fileEnd ?q"
      "k < fileEnd ?q \<longrightarrow> fileContents ?q ! k = newline"
      "\<forall>i. parsePosition ?q \<le> i \<and> i < k \<longrightarrow> fileContents ?q ! i \<noteq> newline"
      using "1.IH" True by blast
    have "parseComment p = parseComment ?q"
      using True by (subst parseComment.simps) simp
    moreover have "\<forall>i. parsePosition p \<le> i \<and> i < k \<longrightarrow> fileContents p ! i \<noteq> newline"
    proof (intro allI impI)
      fix i assume i: "parsePosition p \<le> i \<and> i < k"
      show "fileContents p ! i \<noteq> newline"
      proof (cases "i = parsePosition p")
        case True
        then show ?thesis using \<open>parsePosition p < fileEnd p \<and> current p \<noteq> newline\<close>
          by (simp add: current_def)
      next
        case False
        then show ?thesis using i k(5) by simp
      qed
    qed
    ultimately show ?thesis
      using k(1,2,3,4) True by (intro exI [of _ k]) (simp add: fileEnd_def)
  next
    case False
    then have "parseComment p = p"
      by (subst parseComment.simps) auto
    then show ?thesis
      using False by (intro exI [of _ "parsePosition p"]) (auto simp: current_def)
  qed
qed

definition kindsAndContents :: "FileParser \<Rightarrow> (line_kind \<times> byte option list) list" where
  "kindsAndContents p = map (\<lambda>(a, l). (Kind l, Contents l)) (storedLines (target p))"

definition submittedKind :: "FileParser \<Rightarrow> line_kind" where
  "submittedKind p =
     (if lineIsMalformed p then Malformed
      else if equalsSignFound p then Property
      else if sectionFound p then Section
      else Plain)"

lemma kc_allocateChunked:
  "kindsAndContents (snd (allocateChunked T n p)) = kindsAndContents p"
  by (simp add: kindsAndContents_def allocateChunked_def Let_def)

lemma kc_placeLine:
  "kindsAndContents (placeLine a l p) = kindsAndContents p @ [(Kind l, Contents l)]"
  by (simp add: kindsAndContents_def placeLine_def)

lemma kc_modifyLine:
  assumes "\<And>l. Kind (f l) = Kind l \<and> Contents (f l) = Contents l"
  shows "kindsAndContents (modifyLine a f p) = kindsAndContents p"
  using assms by (auto simp: kindsAndContents_def modifyLine_def)

lemma kc_allocateLineChunked:
  "kindsAndContents (snd (allocateLineChunked T k c n p)) =
     kindsAndContents p @ [(k, copy_n (fileContents p) c n)]"
  by (simp add: allocateLineChunked_def Let_def case_prod_beta kc_placeLine kc_allocateChunked)

lemma kc_generateSectionLine:
  "kindsAndContents (snd (generateSectionLine L p)) =
     kindsAndContents p @
       [(Section, copy_n (fileContents p) (lineStart p) (parsePosition p - lineStart p))]"
  by (simp add: generateSectionLine_def Let_def case_prod_beta kc_modifyLine
        kc_allocateLineChunked)

lemma kc_generatePropertyLine:
  "kindsAndContents (snd (generatePropertyLine L p)) =
     kindsAndContents p @
       [(Property, copy_n (fileContents p) (lineStart p) (parsePosition p - lineStart p))]"
  by (simp add: generatePropertyLine_def Let_def case_prod_beta kc_modifyLine
        kc_allocateLineChunked)

lemma kc_resetState: "kindsAndContents (resetState p) = kindsAndContents p"
  by (simp add: kindsAndContents_def resetState_def)

lemma kc_submitLine:
  "kindsAndContents (submitLine L p) =
     kindsAndContents p @
       [(submittedKind p,
         copy_n (fileContents p) (lineStart p) (parsePosition p + 1 - lineStart p))]"
proof -
  have k: "kindsAndContents (p\<lparr> parsePosition := x \<rparr>) = kindsAndContents p" for x
    by (simp add: kindsAndContents_def)
  show ?thesis
    unfolding submitLine_def Let_def kc_resetState
    by (simp add: kc_allocateLineChunked kc_generatePropertyLine kc_generateSectionLine k
          submittedKind_def)
qed

lemma submitLine_fields:
  "lineStart (submitLine L p) = parsePosition p + 1"
  "nameStart (submitLine L p) = None"
  "sectionFound (submitLine L p) = False"
  "equalsSignFound (submitLine L p) = False"
  "lineIsMalformed (submitLine L p) = False"
  using submitLine_kept [of p L] by (auto simp: resetState_def scanning_kept_def)

definition line_ok :: "line_kind \<times> byte option list \<Rightarrow> bool" where
  "line_ok x = (fst x \<noteq> Malformed \<longrightarrow> equalsOutsideQuotesAndComments (definedBytes (snd x)) \<le> 1)"

text \<open>
  Where the current line stands: no line feed from its start to the parse position, a
  line feed in front of its start unless it starts the buffer, and the lines stored so
  far hold the bytes of the buffer in front of it, one line for every line feed there.
\<close>

definition lineFeeds :: "byte list \<Rightarrow> nat" where
  "lineFeeds bytes = length (filter (\<lambda>c. c = newline) bytes)"

definition span_inv :: "FileParser \<Rightarrow> bool" where
  "span_inv p =
     ((\<forall>i. lineStart p \<le> i \<and> i < parsePosition p \<longrightarrow> fileContents p ! i \<noteq> newline) \<and>
      (0 < lineStart p \<longrightarrow> fileContents p ! (lineStart p - 1) = newline) \<and>
      concat (map snd (kindsAndContents p)) = map Some (take (lineStart p) (fileContents p)) \<and>
      length (kindsAndContents p) = lineFeeds (take (lineStart p) (fileContents p)))"

lemma span_inv_update [simp]:
  "span_inv (p\<lparr> nameStart := a \<rparr>) = span_inv p"
  "span_inv (p\<lparr> nameEnd := b \<rparr>) = span_inv p"
  "span_inv (p\<lparr> valueStart := c \<rparr>) = span_inv p"
  "span_inv (p\<lparr> valueEnd := d \<rparr>) = span_inv p"
  "span_inv (p\<lparr> sectionFound := e \<rparr>) = span_inv p"
  "span_inv (p\<lparr> equalsSignFound := f \<rparr>) = span_inv p"
  "span_inv (p\<lparr> lineIsMalformed := g \<rparr>) = span_inv p"
  by (simp_all add: span_inv_def kindsAndContents_def)

lemma span_inv_advance:
  assumes "span_inv p" "parsePosition p \<le> k"
    "\<forall>i. parsePosition p \<le> i \<and> i < k \<longrightarrow> fileContents p ! i \<noteq> newline"
  shows "span_inv (p\<lparr> parsePosition := k \<rparr>)"
proof -
  have a: "\<forall>i. lineStart p \<le> i \<and> i < parsePosition p \<longrightarrow> fileContents p ! i \<noteq> newline"
    using assms(1) unfolding span_inv_def by blast
  have "fileContents p ! i \<noteq> newline" if "lineStart p \<le> i" "i < k" for i
  proof (cases "i < parsePosition p")
    case True
    then show ?thesis using a that(1) by blast
  next
    case False
    then have "parsePosition p \<le> i \<and> i < k" using that(2) by simp
    then show ?thesis using assms(3) by blast
  qed
  then show ?thesis
    using assms(1) unfolding span_inv_def by (simp add: kindsAndContents_def)
qed

lemma span_inv_Suc:
  assumes "span_inv p" "current p \<noteq> newline"
  shows "span_inv (p\<lparr> parsePosition := Suc (parsePosition p) \<rparr>)"
proof -
  have "fileContents p ! i \<noteq> newline" if "parsePosition p \<le> i \<and> i < Suc (parsePosition p)" for i
  proof -
    have "i = parsePosition p" using that by simp
    then show ?thesis using assms(2) by (simp add: current_def)
  qed
  then show ?thesis
    using span_inv_advance [OF assms(1), of "Suc (parsePosition p)"] by simp
qed

lemma copy_n_inside:
  assumes "s + k \<le> length bytes"
  shows "copy_n bytes s k = map Some (take k (drop s bytes))"
proof (rule nth_equalityI)
  show "length (copy_n bytes s k) = length (map Some (take k (drop s bytes)))"
    using assms by (simp add: copy_n_def)
next
  fix i assume "i < length (copy_n bytes s k)"
  then have "i < k" by (simp add: copy_n_def)
  then show "copy_n bytes s k ! i = map Some (take k (drop s bytes)) ! i"
    using assms by (simp add: copy_n_def readByte_def)
qed

lemma lineFeeds_none:
  assumes "\<forall>i. s \<le> i \<and> i < e \<longrightarrow> bytes ! i \<noteq> newline" "e \<le> length bytes"
  shows "lineFeeds (take (e - s) (drop s bytes)) = 0"
proof -
  let ?xs = "take (e - s) (drop s bytes)"
  have len: "length ?xs \<le> e - s" by simp
  have "?xs ! j \<noteq> newline" if j: "j < length ?xs" for j
  proof -
    have js: "j < e - s" using j len by linarith
    then have "s + j < e" by linarith
    then have "s + j < length bytes" using assms(2) by linarith
    then have "?xs ! j = bytes ! (s + j)" using js by simp
    moreover have "s \<le> s + j \<and> s + j < e" using \<open>s + j < e\<close> by simp
    ultimately show ?thesis using assms(1) by metis
  qed
  then have "\<forall>x \<in> set ?xs. x \<noteq> newline"
    unfolding all_set_conv_all_nth by blast
  then have "filter (\<lambda>c. c = newline) ?xs = []"
    unfolding filter_empty_conv by blast
  then show ?thesis
    unfolding lineFeeds_def by simp
qed

lemma lineFeeds_append: "lineFeeds (xs @ ys) = lineFeeds xs + lineFeeds ys"
  by (simp add: lineFeeds_def)

lemma span_inv_submitLine:
  assumes "span_inv p" "lineStart p \<le> parsePosition p" "parsePosition p < fileEnd p"
    "current p = newline"
  shows "span_inv (submitLine L p)"
proof -
  let ?b = "fileContents p"
  have t: "take (Suc (parsePosition p)) ?b =
      take (lineStart p) ?b @ take (parsePosition p - lineStart p) (drop (lineStart p) ?b) @
      [?b ! parsePosition p]"
  proof -
    have "take (Suc (parsePosition p)) ?b = take (parsePosition p) ?b @ [?b ! parsePosition p]"
      using assms(3) by (simp add: take_Suc_conv_app_nth fileEnd_def)
    moreover have "take (parsePosition p) ?b =
        take (lineStart p) ?b @ take (parsePosition p - lineStart p) (drop (lineStart p) ?b)"
      using assms(2) take_add [of "lineStart p" "parsePosition p - lineStart p" ?b] by simp
    ultimately show ?thesis by simp
  qed
  have a: "\<forall>i. lineStart p \<le> i \<and> i < parsePosition p \<longrightarrow> ?b ! i \<noteq> newline"
    and cc: "concat (map snd (kindsAndContents p)) = map Some (take (lineStart p) ?b)"
    and ln: "length (kindsAndContents p) = lineFeeds (take (lineStart p) ?b)"
    using assms(1) unfolding span_inv_def by blast+
  have z: "lineFeeds (take (parsePosition p - lineStart p) (drop (lineStart p) ?b)) = 0"
    using lineFeeds_none [OF a] assms(3) by (simp add: fileEnd_def)
  have o: "lineFeeds [?b ! parsePosition p] = 1"
    using assms(4) by (simp add: lineFeeds_def current_def)
  have "lineFeeds (take (Suc (parsePosition p)) ?b) =
      lineFeeds (take (lineStart p) ?b) +
      (lineFeeds (take (parsePosition p - lineStart p) (drop (lineStart p) ?b)) +
       lineFeeds [?b ! parsePosition p])"
    by (subst t) (simp only: lineFeeds_append)
  then have n: "lineFeeds (take (Suc (parsePosition p)) ?b) =
      Suc (lineFeeds (take (lineStart p) ?b))"
    by (simp add: z o)
  have cnt: "length (kindsAndContents (submitLine L p)) =
      lineFeeds (take (Suc (parsePosition p)) ?b)"
    using ln n by (simp add: kc_submitLine)
  have c: "copy_n ?b (lineStart p) (parsePosition p + 1 - lineStart p) =
      map Some (take (parsePosition p + 1 - lineStart p) (drop (lineStart p) ?b))"
    using assms(2,3) by (intro copy_n_inside) (simp add: fileEnd_def)
  have "take (lineStart p) ?b @ take (parsePosition p + 1 - lineStart p) (drop (lineStart p) ?b)
      = take (parsePosition p + 1) ?b"
    using assms(2) take_add [of "lineStart p" "parsePosition p + 1 - lineStart p" ?b] by simp
  then have "map Some (take (lineStart p) ?b) @
      map Some (take (parsePosition p + 1 - lineStart p) (drop (lineStart p) ?b))
      = map Some (take (parsePosition p + 1) ?b)"
    by (metis map_append)
  then have "concat (map snd (kindsAndContents (submitLine L p))) =
      map Some (take (parsePosition p + 1) ?b)"
    using cc c by (simp add: kc_submitLine)
  moreover have "\<forall>i. Suc (parsePosition p) \<le> i \<and> i < Suc (parsePosition p) \<longrightarrow>
      ?b ! i \<noteq> newline"
    by auto
  ultimately show ?thesis
    using assms(4) cnt unfolding span_inv_def
    by (simp add: submitLine_fields current_def)
qed

definition base_inv :: "FileParser \<Rightarrow> bool" where
  "base_inv p =
     (lineStart p \<le> parsePosition p \<and> parsePosition p \<le> fileEnd p \<and>
      (sectionFound p \<longrightarrow> nameStart p \<noteq> None) \<and>
      (\<forall>x \<in> set (kindsAndContents p). line_ok x) \<and> span_inv p)"

definition lx :: "FileParser \<Rightarrow> lexer" where
  "lx p = lexed (fileContents p) (lineStart p) (parsePosition p)"

definition top_sync :: "FileParser \<Rightarrow> bool" where
  "top_sync p =
     (\<not> lineIsMalformed p \<longrightarrow>
        assignments (lx p) = (if equalsSignFound p then 1 else 0) \<and>
        (parsePosition p < fileEnd p \<longrightarrow>
           \<not> inQuote (lx p) \<and> (current p \<noteq> newline \<longrightarrow> \<not> inComment (lx p))))"

definition name_sync :: "bool \<Rightarrow> FileParser \<Rightarrow> bool" where
  "name_sync q p =
     (\<not> lineIsMalformed p \<longrightarrow>
        \<not> equalsSignFound p \<and> lx p = \<lparr> inQuote = q, inComment = False, assignments = 0 \<rparr>)"

definition value_sync :: "bool \<Rightarrow> FileParser \<Rightarrow> bool" where
  "value_sync q p =
     (\<not> lineIsMalformed p \<longrightarrow>
        equalsSignFound p \<and> lx p = \<lparr> inQuote = q, inComment = False, assignments = 1 \<rparr>)"

lemma malformed_inv:
  assumes "base_inv p"
  shows "base_inv (parseMalformedLine p) \<and> top_sync (parseMalformedLine p)"
proof -
  obtain k where k: "parseMalformedLine p = p\<lparr> lineIsMalformed := True, parsePosition := k \<rparr>"
    "parsePosition p \<le> k" "parsePosition p \<le> fileEnd p \<longrightarrow> k \<le> fileEnd p"
    "\<forall>i. parsePosition p \<le> i \<and> i < k \<longrightarrow> fileContents p ! i \<noteq> newline"
    using parseMalformedLine_result by blast
  have "span_inv (p\<lparr> lineIsMalformed := True \<rparr>)"
    using assms by (simp add: base_inv_def)
  then have "span_inv (p\<lparr> lineIsMalformed := True, parsePosition := k \<rparr>)"
    using span_inv_advance [of "p\<lparr> lineIsMalformed := True \<rparr>" k] k(2,4) by simp
  then show ?thesis
    using assms k(2,3)
    by (simp add: k(1) base_inv_def top_sync_def fileEnd_def kindsAndContents_def)
qed

lemma comment_inv:
  assumes "base_inv p" "parsePosition p < fileEnd p"
    "current p = CHR '';'' \<or> current p = CHR ''#''"
    "\<not> lineIsMalformed p \<longrightarrow>
       assignments (lx p) = (if equalsSignFound p then 1 else 0) \<and>
       \<not> inQuote (lx p) \<and> \<not> inComment (lx p)"
  shows "base_inv (parseComment p) \<and> top_sync (parseComment p)"
proof -
  have nl: "current p \<noteq> newline"
    using assms(3) by (auto simp: newline_def)
  obtain k where k: "parseComment p = p\<lparr> parsePosition := k \<rparr>"
    "parsePosition p < k" "k \<le> fileEnd p" "k < fileEnd p \<longrightarrow> fileContents p ! k = newline"
    "\<forall>i. parsePosition p \<le> i \<and> i < k \<longrightarrow> fileContents p ! i \<noteq> newline"
    using parseComment_result [of p] assms(2) nl by auto
  have b: "lineStart p \<le> parsePosition p" using assms(1) by (simp add: base_inv_def)
  have "span_inv p" using assms(1) by (simp add: base_inv_def)
  then have sp: "span_inv (p\<lparr> parsePosition := k \<rparr>)"
    using span_inv_advance k(2,5) by (meson less_imp_le)
  have base: "base_inv (p\<lparr> parsePosition := k \<rparr>)"
    using assms(1) k(2,3) sp by (simp add: base_inv_def fileEnd_def kindsAndContents_def)
  have step: "lexed (fileContents p) (lineStart p) (Suc (parsePosition p)) =
      lexer_step (lx p) (current p)"
    using lexed_Suc [OF b] assms(2) by (simp add: lx_def fileEnd_def current_def)
  have sync: "top_sync (p\<lparr> parsePosition := k \<rparr>)"
  proof (cases "lineIsMalformed p")
    case True
    then show ?thesis by (simp add: top_sync_def)
  next
    case False
    then have s: "lexer_step (lx p) (current p) = (lx p)\<lparr> inComment := True \<rparr>"
      using assms(3,4) by (auto simp: lexer_step_def)
    have "lexed (fileContents p) (lineStart p) k =
        lexed (fileContents p) (lineStart p) (Suc (parsePosition p))"
      using lexed_in_comment [of "lineStart p" "Suc (parsePosition p)" k "fileContents p"]
        b k(2) step s by simp
    then have "lx (p\<lparr> parsePosition := k \<rparr>) = (lx p)\<lparr> inComment := True \<rparr>"
      using step s by (simp add: lx_def)
    then show ?thesis
      using False assms(4) k(4)
      by (simp add: top_sync_def fileEnd_def current_def)
  qed
  show ?thesis using base sync by (simp add: k(1))
qed

lemma lx_advance:
  assumes "lineStart p \<le> parsePosition p" "parsePosition p < fileEnd p"
  shows "lexed (fileContents p) (lineStart p) (Suc (parsePosition p)) =
      lexer_step (lx p) (current p)"
  using lexed_Suc [OF assms(1)] assms(2) by (simp add: lx_def fileEnd_def current_def)

lemma nameIterationEnd_inv:
  assumes "base_inv r" "parsePosition r < fileEnd r" "c = current r" "name_sync q0 r"
    "\<not> lineIsMalformed r \<longrightarrow>
       lexer_step (lx r) c = \<lparr> inQuote = q', inComment = False, assignments = 0 \<rparr>"
    "c = newline \<longrightarrow> q' \<or> \<not> q0"
  shows "case nameIterationEnd c (q', qe', sec') r of
           Inl x \<Rightarrow> base_inv x \<and> top_sync x
         | Inr (fl', x) \<Rightarrow> base_inv x \<and> name_sync (fst fl') x"
proof (cases "c = newline")
  case True
  have "top_sync r" if "\<not> q'"
    using that True assms(4,6) by (auto simp: name_sync_def top_sync_def)
  moreover have "base_inv (r\<lparr> lineIsMalformed := True \<rparr>)"
    "top_sync (r\<lparr> lineIsMalformed := True \<rparr>)"
    using assms(1) by (simp_all add: base_inv_def top_sync_def fileEnd_def kindsAndContents_def)
  ultimately show ?thesis
    using True assms(1) by (simp add: nameIterationEnd_def)
next
  case False
  let ?x = "r\<lparr> parsePosition := parsePosition r + 1 \<rparr>"
  have "span_inv r" using assms(1) by (simp add: base_inv_def)
  then have sp: "span_inv ?x"
    using span_inv_Suc [of r] False assms(3) by simp
  have b: "base_inv ?x"
    using assms(1,2) sp by (simp add: base_inv_def fileEnd_def kindsAndContents_def)
  have "lineStart r \<le> parsePosition r" using assms(1) by (simp add: base_inv_def)
  then have "lx ?x = lexer_step (lx r) c"
    using lx_advance [of r] assms(2,3) by (simp add: lx_def)
  then have "name_sync q' ?x"
    using assms(4,5) by (simp add: name_sync_def)
  then show ?thesis
    using False b by (simp add: nameIterationEnd_def)
qed

lemma parseName_body_inv:
  assumes "parsePosition p < fileEnd p" "base_inv p" "name_sync q p"
  shows "case parseName_body L (q, qe, sec) p of
           Inl x \<Rightarrow> base_inv x \<and> top_sync x
         | Inr (fl', x) \<Rightarrow> base_inv x \<and> name_sync (fst fl') x"
proof -
  let ?c = "current p"
  have m: "base_inv (parseMalformedLine p) \<and> top_sync (parseMalformedLine p)"
    using malformed_inv [OF assms(2)] .
  have dead: "\<not> (sectionFound p \<and> nameStart p = None)"
    using assms(2) by (simp add: base_inv_def)
  have upd: "base_inv r \<and> parsePosition r < fileEnd r \<and> ?c = current r \<and> name_sync q r \<and>
      lx r = lx p \<and> lineIsMalformed r = lineIsMalformed p"
    if "r = p\<lparr> nameEnd := x \<rparr> \<or> r = p\<lparr> nameStart := Some y \<rparr> \<or>
        (nameStart p \<noteq> None \<and> r = p\<lparr> nameEnd := x, sectionFound := True \<rparr>) \<or>
        r = p\<lparr> nameStart := Some y, nameEnd := x \<rparr> \<or> r = p" for r x y
    using that assms
    by (auto simp: base_inv_def fileEnd_def kindsAndContents_def current_def name_sync_def lx_def)
  show ?thesis
  proof (cases q)
    case True
    let ?r = "p\<lparr> nameEnd := Some (parsePosition p) \<rparr>"
    have u: "base_inv ?r" "parsePosition ?r < fileEnd ?r" "?c = current ?r" "name_sync q ?r"
      "lx ?r = lx p" "lineIsMalformed ?r = lineIsMalformed p"
      using upd [of ?r] by blast+
    have s: "\<not> lineIsMalformed ?r \<longrightarrow> lexer_step (lx ?r) ?c =
        \<lparr> inQuote = (?c \<noteq> dquote), inComment = False, assignments = 0 \<rparr>"
      using assms(3) True u(5) by (auto simp: name_sync_def lexer_step_def)
    have n: "?c = newline \<longrightarrow> (?c \<noteq> dquote) \<or> \<not> q"
      by (auto simp: newline_def dquote_def)
    show ?thesis
      using True nameIterationEnd_inv [OF u(1,2,3,4) s n, of qe sec]
      by (simp add: parseName_body_def Let_def)
  next
    case nq: False
    have l: "\<not> lineIsMalformed p \<longrightarrow>
        lx p = \<lparr> inQuote = False, inComment = False, assignments = 0 \<rparr> \<and> \<not> equalsSignFound p"
      using assms(3) nq by (simp add: name_sync_def)
    consider (semi) "?c = CHR '';'' \<or> ?c = CHR ''#''"
      | (lbracket) "?c = CHR ''[''" | (rbracket) "?c = CHR '']''" | (dq) "?c = dquote"
      | (eq) "?c = CHR ''=''"
      | (plain) "?c \<noteq> CHR '';''" "?c \<noteq> CHR ''#''" "?c \<noteq> CHR ''[''" "?c \<noteq> CHR '']''"
          "?c \<noteq> dquote" "?c \<noteq> CHR ''=''"
      by blast
    then show ?thesis
    proof cases
      case semi
      then show ?thesis
        using nq m by (auto simp: parseName_body_def Let_def)
    next
      case lbracket
      show ?thesis
      proof (cases "nameStart p \<noteq> None \<or> sec")
        case True
        then show ?thesis
          using nq m lbracket by (auto simp: parseName_body_def Let_def)
      next
        case False
        then have nf: "\<not> sectionFound p" using dead by simp
        let ?r = "p\<lparr> nameStart := Some (parsePosition p + 1) \<rparr>"
        have u: "base_inv ?r" "parsePosition ?r < fileEnd ?r" "?c = current ?r" "name_sync q ?r"
          "lx ?r = lx p" "lineIsMalformed ?r = lineIsMalformed p"
          using upd [of ?r] by blast+
        have s: "\<not> lineIsMalformed ?r \<longrightarrow> lexer_step (lx ?r) ?c =
            \<lparr> inQuote = q, inComment = False, assignments = 0 \<rparr>"
          using l nq u(5) lbracket by (auto simp: lexer_step_def dquote_def)
        have n: "?c = newline \<longrightarrow> q \<or> \<not> q" by simp
        show ?thesis
          using False nf nq lbracket nameIterationEnd_inv [OF u(1,2,3,4) s n, of qe True]
          by (simp add: parseName_body_def Let_def)
      qed
    next
      case rbracket
      show ?thesis
      proof (cases "nameStart p = None \<or> \<not> sec")
        case True
        then show ?thesis
          using nq m rbracket by (auto simp: parseName_body_def Let_def)
      next
        case False
        let ?r = "p\<lparr> nameEnd := Some (parsePosition p), sectionFound := True \<rparr>"
        have u: "base_inv ?r" "parsePosition ?r < fileEnd ?r" "?c = current ?r" "name_sync q ?r"
          "lx ?r = lx p" "lineIsMalformed ?r = lineIsMalformed p"
          using upd [of ?r] False by blast+
        have s: "\<not> lineIsMalformed ?r \<longrightarrow> lexer_step (lx ?r) ?c =
            \<lparr> inQuote = q, inComment = False, assignments = 0 \<rparr>"
          using l nq u(5) rbracket by (auto simp: lexer_step_def dquote_def)
        have n: "?c = newline \<longrightarrow> q \<or> \<not> q" by simp
        show ?thesis
          using False nq rbracket nameIterationEnd_inv [OF u(1,2,3,4) s n, of qe False]
          by (auto simp: parseName_body_def Let_def dquote_def)
      qed
    next
      case dq
      show ?thesis
      proof (cases "nameStart p \<noteq> None \<or> qe")
        case True
        then show ?thesis
          using nq m dq by (auto simp: parseName_body_def Let_def dquote_def)
      next
        case False
        let ?r = "p\<lparr> nameStart := Some (parsePosition p + 1) \<rparr>"
        have u: "base_inv ?r" "parsePosition ?r < fileEnd ?r" "?c = current ?r" "name_sync q ?r"
          "lx ?r = lx p" "lineIsMalformed ?r = lineIsMalformed p"
          using upd [of ?r] by blast+
        have s: "\<not> lineIsMalformed ?r \<longrightarrow> lexer_step (lx ?r) ?c =
            \<lparr> inQuote = True, inComment = False, assignments = 0 \<rparr>"
          using l nq u(5) dq by (auto simp: lexer_step_def dquote_def)
        have n: "?c = newline \<longrightarrow> True \<or> \<not> q" by simp
        show ?thesis
          using False nq dq nameIterationEnd_inv [OF u(1,2,3,4) s n, of True sec]
          by (simp add: parseName_body_def Let_def dquote_def)
      qed
    next
      case eq
      have "top_sync p"
        using l assms(1) by (auto simp: top_sync_def)
      then show ?thesis
        using nq m eq assms(2) by (auto simp: parseName_body_def Let_def dquote_def)
    next
      case plain
      show ?thesis
      proof (cases "isWhitepace ?c")
        case True
        have u: "base_inv p" "parsePosition p < fileEnd p" "?c = current p" "name_sync q p"
          using assms by simp_all
        have s: "\<not> lineIsMalformed p \<longrightarrow> lexer_step (lx p) ?c =
            \<lparr> inQuote = q, inComment = False, assignments = 0 \<rparr>"
          using l nq plain by (auto simp: lexer_step_def)
        have n: "?c = newline \<longrightarrow> q \<or> \<not> q" by simp
        show ?thesis
          using True nq plain nameIterationEnd_inv [OF u(1,2,3,4) s n, of qe sec]
          by (simp add: parseName_body_def Let_def)
      next
        case False
        show ?thesis
        proof (cases qe)
          case True
          then show ?thesis
            using nq m plain False by (auto simp: parseName_body_def Let_def)
        next
          case nqe: False
          let ?r = "p\<lparr> nameStart :=
                     (if nameStart p = None then Some (parsePosition p) else nameStart p),
                   nameEnd := Some (parsePosition p + 1) \<rparr>"
          obtain y where y: "(if nameStart p = None then Some (parsePosition p) else nameStart p)
              = Some y"
            by (cases "nameStart p") auto
          have u: "base_inv ?r" "parsePosition ?r < fileEnd ?r" "?c = current ?r" "name_sync q ?r"
            "lx ?r = lx p" "lineIsMalformed ?r = lineIsMalformed p"
            unfolding y using upd [of "p\<lparr> nameStart := Some y, nameEnd := Some (parsePosition p + 1) \<rparr>"]
            by blast+
          have s: "\<not> lineIsMalformed ?r \<longrightarrow> lexer_step (lx ?r) ?c =
              \<lparr> inQuote = q, inComment = False, assignments = 0 \<rparr>"
            using l nq u(5) plain by (auto simp: lexer_step_def)
          have n: "?c = newline \<longrightarrow> q \<or> \<not> q" by simp
          show ?thesis
            using False nqe nq plain nameIterationEnd_inv [OF u(1,2,3,4) s n, of qe sec]
            by (simp add: parseName_body_def Let_def)
        qed
      qed
    qed
  qed
qed

lemma valueIterationEnd_inv:
  assumes "base_inv r" "parsePosition r < fileEnd r" "c = current r" "value_sync q0 r"
    "\<not> lineIsMalformed r \<longrightarrow>
       lexer_step (lx r) c = \<lparr> inQuote = q', inComment = False, assignments = 1 \<rparr>"
    "c = newline \<longrightarrow> q' \<or> \<not> q0"
  shows "case valueIterationEnd c (q', qe') r of
           Inl x \<Rightarrow> base_inv x \<and> top_sync x
         | Inr (fl', x) \<Rightarrow> base_inv x \<and> value_sync (fst fl') x"
proof (cases "c = newline")
  case True
  have "top_sync r" if "\<not> q'"
    using that True assms(4,6) by (auto simp: value_sync_def top_sync_def)
  moreover have "base_inv (r\<lparr> lineIsMalformed := True \<rparr>)"
    "top_sync (r\<lparr> lineIsMalformed := True \<rparr>)"
    using assms(1) by (simp_all add: base_inv_def top_sync_def fileEnd_def kindsAndContents_def)
  ultimately show ?thesis
    using True assms(1) by (simp add: valueIterationEnd_def)
next
  case False
  let ?x = "r\<lparr> parsePosition := parsePosition r + 1 \<rparr>"
  have "span_inv r" using assms(1) by (simp add: base_inv_def)
  then have sp: "span_inv ?x"
    using span_inv_Suc [of r] False assms(3) by simp
  have b: "base_inv ?x"
    using assms(1,2) sp by (simp add: base_inv_def fileEnd_def kindsAndContents_def)
  have "lineStart r \<le> parsePosition r" using assms(1) by (simp add: base_inv_def)
  then have "lx ?x = lexer_step (lx r) c"
    using lx_advance [of r] assms(2,3) by (simp add: lx_def)
  then have "value_sync q' ?x"
    using assms(4,5) by (simp add: value_sync_def)
  then show ?thesis
    using False b by (simp add: valueIterationEnd_def)
qed

lemma parseValue_body_inv:
  assumes "parsePosition p < fileEnd p" "base_inv p" "value_sync q p"
  shows "case parseValue_body (q, qe) p of
           Inl x \<Rightarrow> base_inv x \<and> top_sync x
         | Inr (fl', x) \<Rightarrow> base_inv x \<and> value_sync (fst fl') x"
proof -
  let ?c = "current p"
  have m: "base_inv (parseMalformedLine p) \<and> top_sync (parseMalformedLine p)"
    using malformed_inv [OF assms(2)] .
  have upd: "base_inv r \<and> parsePosition r < fileEnd r \<and> ?c = current r \<and> value_sync q r \<and>
      lx r = lx p \<and> lineIsMalformed r = lineIsMalformed p"
    if "r = p\<lparr> valueEnd := x \<rparr> \<or> r = p\<lparr> valueStart := y \<rparr> \<or>
        r = p\<lparr> valueStart := y, valueEnd := x \<rparr> \<or> r = p" for r x y
    using that assms
    by (auto simp: base_inv_def fileEnd_def kindsAndContents_def current_def value_sync_def lx_def)
  show ?thesis
  proof (cases q)
    case True
    let ?r = "p\<lparr> valueEnd := Some (parsePosition p) \<rparr>"
    have u: "base_inv ?r" "parsePosition ?r < fileEnd ?r" "?c = current ?r" "value_sync q ?r"
      "lx ?r = lx p" "lineIsMalformed ?r = lineIsMalformed p"
      using upd [of ?r] by blast+
    have s: "\<not> lineIsMalformed ?r \<longrightarrow> lexer_step (lx ?r) ?c =
        \<lparr> inQuote = (?c \<noteq> dquote), inComment = False, assignments = 1 \<rparr>"
      using assms(3) True u(5) by (auto simp: value_sync_def lexer_step_def)
    have n: "?c = newline \<longrightarrow> (?c \<noteq> dquote) \<or> \<not> q"
      by (auto simp: newline_def dquote_def)
    show ?thesis
      using True valueIterationEnd_inv [OF u(1,2,3,4) s n, of qe]
      by (simp add: parseValue_body_def Let_def)
  next
    case nq: False
    have l: "\<not> lineIsMalformed p \<longrightarrow>
        lx p = \<lparr> inQuote = False, inComment = False, assignments = 1 \<rparr> \<and> equalsSignFound p"
      using assms(3) nq by (simp add: value_sync_def)
    consider (semi) "?c = CHR '';'' \<or> ?c = CHR ''#''"
      | (dq) "?c = dquote" | (eq) "?c = CHR ''=''"
      | (plain) "?c \<noteq> CHR '';''" "?c \<noteq> CHR ''#''" "?c \<noteq> dquote" "?c \<noteq> CHR ''=''"
      by blast
    then show ?thesis
    proof cases
      case semi
      have "\<not> lineIsMalformed p \<longrightarrow>
         assignments (lx p) = (if equalsSignFound p then 1 else 0) \<and>
         \<not> inQuote (lx p) \<and> \<not> inComment (lx p)"
        using l by simp
      then show ?thesis
        using nq semi comment_inv [OF assms(2,1) semi]
        by (auto simp: parseValue_body_def Let_def)
    next
      case dq
      show ?thesis
      proof (cases "valueStart p \<noteq> None \<or> qe")
        case True
        then show ?thesis
          using nq m dq by (auto simp: parseValue_body_def Let_def dquote_def)
      next
        case False
        let ?r = "p\<lparr> valueStart := Some (parsePosition p + 1) \<rparr>"
        have u: "base_inv ?r" "parsePosition ?r < fileEnd ?r" "?c = current ?r" "value_sync q ?r"
          "lx ?r = lx p" "lineIsMalformed ?r = lineIsMalformed p"
          using upd [of ?r] by blast+
        have s: "\<not> lineIsMalformed ?r \<longrightarrow> lexer_step (lx ?r) ?c =
            \<lparr> inQuote = True, inComment = False, assignments = 1 \<rparr>"
          using l nq u(5) dq by (auto simp: lexer_step_def dquote_def)
        have n: "?c = newline \<longrightarrow> True \<or> \<not> q" by simp
        show ?thesis
          using False nq dq valueIterationEnd_inv [OF u(1,2,3,4) s n, of True]
          by (simp add: parseValue_body_def Let_def dquote_def)
      qed
    next
      case eq
      then show ?thesis
        using nq m by (auto simp: parseValue_body_def Let_def dquote_def)
    next
      case plain
      show ?thesis
      proof (cases "isWhitepace ?c")
        case True
        have u: "base_inv p" "parsePosition p < fileEnd p" "?c = current p" "value_sync q p"
          using assms by simp_all
        have s: "\<not> lineIsMalformed p \<longrightarrow> lexer_step (lx p) ?c =
            \<lparr> inQuote = q, inComment = False, assignments = 1 \<rparr>"
          using l nq plain by (auto simp: lexer_step_def)
        have n: "?c = newline \<longrightarrow> q \<or> \<not> q" by simp
        show ?thesis
          using True nq plain valueIterationEnd_inv [OF u(1,2,3,4) s n, of qe]
          by (simp add: parseValue_body_def Let_def)
      next
        case False
        show ?thesis
        proof (cases qe)
          case True
          then show ?thesis
            using nq m plain False by (auto simp: parseValue_body_def Let_def)
        next
          case nqe: False
          let ?r = "p\<lparr> valueStart :=
                     (if valueStart p = None then Some (parsePosition p) else valueStart p),
                   valueEnd := Some (parsePosition p + 1) \<rparr>"
          have u: "base_inv ?r" "parsePosition ?r < fileEnd ?r" "?c = current ?r" "value_sync q ?r"
            "lx ?r = lx p" "lineIsMalformed ?r = lineIsMalformed p"
            using upd [of ?r] by blast+
          have s: "\<not> lineIsMalformed ?r \<longrightarrow> lexer_step (lx ?r) ?c =
              \<lparr> inQuote = q, inComment = False, assignments = 1 \<rparr>"
            using l nq u(5) plain by (auto simp: lexer_step_def)
          have n: "?c = newline \<longrightarrow> q \<or> \<not> q" by simp
          show ?thesis
            using False nqe nq plain valueIterationEnd_inv [OF u(1,2,3,4) s n, of qe]
            by (simp add: parseValue_body_def Let_def)
        qed
      qed
    qed
  qed
qed

lemma parseName_loop_inv:
  "base_inv p \<Longrightarrow> name_sync (fst flags) p \<Longrightarrow>
   base_inv (parseName_loop L flags p) \<and> top_sync (parseName_loop L flags p)"
proof (induction L flags p rule: parseName_loop.induct)
  case (1 L flags p)
  obtain q qe sec where fl: "flags = (q, qe, sec)" by (cases flags)
  show ?case
  proof (cases "parsePosition p < fileEnd p")
    case False
    have "top_sync p"
      using False "1.prems"(2) by (auto simp: top_sync_def name_sync_def)
    then show ?thesis
      using False "1.prems"(1) by (simp add: parseName_loop.simps [of L flags p])
  next
    case True
    have b: "case parseName_body L flags p of
           Inl x \<Rightarrow> base_inv x \<and> top_sync x
         | Inr (fl', x) \<Rightarrow> base_inv x \<and> name_sync (fst fl') x"
      using parseName_body_inv [OF True "1.prems"(1), of q L qe sec] "1.prems"(2) fl by simp
    show ?thesis
    proof (cases "parseName_body L flags p")
      case (Inl x)
      then show ?thesis
        using True b by (simp add: parseName_loop.simps [of L flags p])
    next
      case (Inr y)
      obtain flags' p' where y: "y = (flags', p')" by (cases y)
      have "base_inv p'" "name_sync (fst flags') p'"
        using b Inr y by simp_all
      then show ?thesis
        using True Inr y "1.IH" [OF True Inr y [symmetric]]
        by (simp add: parseName_loop.simps [of L flags p])
    qed
  qed
qed

lemma parseValue_loop_inv:
  "base_inv p \<Longrightarrow> value_sync (fst flags) p \<Longrightarrow>
   base_inv (parseValue_loop flags p) \<and> top_sync (parseValue_loop flags p)"
proof (induction flags p rule: parseValue_loop.induct)
  case (1 flags p)
  obtain q qe where fl: "flags = (q, qe)" by (cases flags)
  show ?case
  proof (cases "parsePosition p < fileEnd p")
    case False
    have "top_sync p"
      using False "1.prems"(2) by (auto simp: top_sync_def value_sync_def)
    then show ?thesis
      using False "1.prems"(1) by (simp add: parseValue_loop.simps [of flags p])
  next
    case True
    have b: "case parseValue_body flags p of
           Inl x \<Rightarrow> base_inv x \<and> top_sync x
         | Inr (fl', x) \<Rightarrow> base_inv x \<and> value_sync (fst fl') x"
      using parseValue_body_inv [OF True "1.prems"(1), of q qe] "1.prems"(2) fl by simp
    show ?thesis
    proof (cases "parseValue_body flags p")
      case (Inl x)
      then show ?thesis
        using True b by (simp add: parseValue_loop.simps [of flags p])
    next
      case (Inr y)
      obtain flags' p' where y: "y = (flags', p')" by (cases y)
      have "base_inv p'" "value_sync (fst flags') p'"
        using b Inr y by simp_all
      then show ?thesis
        using True Inr y "1.IH" [OF True Inr y [symmetric]]
        by (simp add: parseValue_loop.simps [of flags p])
    qed
  qed
qed

lemma submitLine_lines:
  assumes "\<forall>x \<in> set (kindsAndContents p). line_ok x"
    "\<not> lineIsMalformed p \<longrightarrow>
       assignments (lexed (fileContents p) (lineStart p) (parsePosition p + 1)) \<le> 1"
  shows "\<forall>x \<in> set (kindsAndContents (submitLine L p)). line_ok x"
proof -
  have "line_ok (submittedKind p,
      copy_n (fileContents p) (lineStart p) (parsePosition p + 1 - lineStart p))"
    using assms(2) equalsOutsideQuotesAndComments_copy_n [of "fileContents p" "lineStart p" "parsePosition p + 1"]
    by (auto simp: line_ok_def submittedKind_def)
  then show ?thesis
    using assms(1) by (simp add: kc_submitLine)
qed

lemma lexer_eqI:
  "inQuote s = q \<Longrightarrow> inComment s = c \<Longrightarrow> assignments s = n \<Longrightarrow>
   s = \<lparr> inQuote = q, inComment = c, assignments = n \<rparr>"
  by (cases s) simp

lemma lexer_step_assignments_newline:
  "assignments (lexer_step s newline) = assignments s"
  by (simp add: lexer_step_def newline_def dquote_def)

lemma ParseInto_body_inv:
  assumes "parsePosition p < fileEnd p" "base_inv p" "top_sync p"
  shows "base_inv (ParseInto_body L p) \<and> top_sync (ParseInto_body L p)"
proof -
  let ?c = "current p"
  have m: "base_inv (parseMalformedLine p) \<and> top_sync (parseMalformedLine p)"
    using malformed_inv [OF assms(2)] .
  have ls: "lineStart p \<le> parsePosition p" using assms(2) by (simp add: base_inv_def)
  have adv: "lexed (fileContents p) (lineStart p) (Suc (parsePosition p)) =
      lexer_step (lx p) ?c"
    using lx_advance [OF ls assms(1)] .
  have t: "\<not> lineIsMalformed p \<longrightarrow>
      assignments (lx p) = (if equalsSignFound p then 1 else 0) \<and> \<not> inQuote (lx p)"
    using assms(1,3) by (simp add: top_sync_def)
  have t': "\<not> lineIsMalformed p \<longrightarrow> ?c \<noteq> newline \<longrightarrow> \<not> inComment (lx p)"
    using assms(1,3) by (simp add: top_sync_def)
  consider (semi) "?c = CHR ''#'' \<or> ?c = CHR '';''" | (eq) "?c = CHR ''=''"
    | (nl) "?c = newline"
    | (plain) "?c \<noteq> CHR ''#''" "?c \<noteq> CHR '';''" "?c \<noteq> CHR ''=''" "?c \<noteq> newline"
    by blast
  then show ?thesis
  proof cases
    case semi
    then have s: "?c = CHR '';'' \<or> ?c = CHR ''#''" by blast
    have "?c \<noteq> newline" using semi by (auto simp: newline_def)
    then have "\<not> lineIsMalformed p \<longrightarrow>
         assignments (lx p) = (if equalsSignFound p then 1 else 0) \<and>
         \<not> inQuote (lx p) \<and> \<not> inComment (lx p)"
      using t t' by simp
    then show ?thesis
      using semi comment_inv [OF assms(2,1) s]
      by (auto simp: ParseInto_body_def Let_def)
  next
    case eq
    have n: "?c \<noteq> newline" using eq by (simp add: newline_def)
    show ?thesis
    proof (cases "equalsSignFound p")
      case True
      then show ?thesis using eq m by (simp add: ParseInto_body_def Let_def)
    next
      case False
      let ?r = "p\<lparr> equalsSignFound := True, parsePosition := parsePosition p + 1 \<rparr>"
      have "span_inv (p\<lparr> equalsSignFound := True \<rparr>)"
        using assms(2) by (simp add: base_inv_def)
      then have sp: "span_inv ?r"
        using span_inv_Suc [of "p\<lparr> equalsSignFound := True \<rparr>"] n by (simp add: current_def)
      have b: "base_inv ?r"
        using assms(1,2) sp by (simp add: base_inv_def fileEnd_def kindsAndContents_def)
      have "lx ?r = lexer_step (lx p) ?c"
        using adv by (simp add: lx_def)
      moreover have "\<not> lineIsMalformed p \<longrightarrow>
          lexer_step (lx p) ?c = (lx p)\<lparr> assignments := assignments (lx p) + 1 \<rparr>"
        using t t' n eq by (auto simp: lexer_step_def dquote_def)
      ultimately have "top_sync ?r"
        using t t' n False by (auto simp: top_sync_def)
      then show ?thesis
        using eq False b by (simp add: ParseInto_body_def Let_def)
    qed
  next
    case nl
    have a: "\<not> lineIsMalformed p \<longrightarrow>
        assignments (lexed (fileContents p) (lineStart p) (parsePosition p + 1)) \<le> 1"
      using adv t nl by (simp add: lexer_step_assignments_newline)
    have l: "\<forall>x \<in> set (kindsAndContents (submitLine L p)). line_ok x"
      using submitLine_lines [OF _ a] assms(2) by (simp add: base_inv_def)
    have "span_inv (submitLine L p)"
      using span_inv_submitLine [OF _ ls assms(1) nl] assms(2) by (simp add: base_inv_def)
    then have b: "base_inv (submitLine L p)"
      using l assms(1) by (simp add: base_inv_def submitLine_fields)
    have "lx (submitLine L p) = lexer_start"
      by (simp add: lx_def submitLine_fields)
    then have "top_sync (submitLine L p)"
      by (simp add: top_sync_def submitLine_fields lexer_start_def)
    then show ?thesis
      using nl b by (simp add: ParseInto_body_def Let_def newline_def)
  next
    case plain
    have q: "\<not> lineIsMalformed p \<longrightarrow> \<not> inQuote (lx p) \<and> \<not> inComment (lx p)"
      using t t' plain(4) by simp
    show ?thesis
    proof (cases "isWhitepace ?c")
      case True
      let ?r = "p\<lparr> parsePosition := parsePosition p + 1 \<rparr>"
      have "span_inv p" using assms(2) by (simp add: base_inv_def)
      then have sp: "span_inv ?r"
        using span_inv_Suc [of p] plain(4) by simp
      have b: "base_inv ?r"
        using assms(1,2) sp by (simp add: base_inv_def fileEnd_def kindsAndContents_def)
      have d: "?c \<noteq> dquote" using True by (auto simp: isWhitepace_def dquote_def)
      have "lx ?r = lexer_step (lx p) ?c"
        using adv by (simp add: lx_def)
      moreover have "\<not> lineIsMalformed p \<longrightarrow> lexer_step (lx p) ?c = lx p"
        using q plain d by (auto simp: lexer_step_def)
      ultimately have "top_sync ?r"
        using t q by (auto simp: top_sync_def)
      then show ?thesis
        using plain True b by (simp add: ParseInto_body_def Let_def)
    next
      case False
      show ?thesis
      proof (cases "equalsSignFound p")
        case True
        have "value_sync False p"
          using True t q by (auto simp: value_sync_def intro: lexer_eqI)
        then show ?thesis
          using plain False True parseValue_loop_inv [OF assms(2), of "(False, False)"]
          by (simp add: ParseInto_body_def Let_def parseValue_def)
      next
        case nf: False
        have "name_sync False p"
          using nf t q by (auto simp: name_sync_def intro: lexer_eqI)
        then show ?thesis
          using plain False nf parseName_loop_inv [OF assms(2), of "(False, False, False)" L]
          by (simp add: ParseInto_body_def Let_def parseName_def)
      qed
    qed
  qed
qed

lemma ParseInto_loop_inv:
  "base_inv p \<Longrightarrow> top_sync p \<Longrightarrow>
   base_inv (ParseInto_loop L p) \<and> top_sync (ParseInto_loop L p) \<and>
   fileEnd (ParseInto_loop L p) \<le> parsePosition (ParseInto_loop L p)"
proof (induction L p rule: ParseInto_loop.induct)
  case (1 L p)
  show ?case
  proof (cases "parsePosition p < fileEnd p")
    case True
    then show ?thesis
      using "1.IH" [OF True] ParseInto_body_inv [OF True "1.prems"]
      by (simp add: ParseInto_loop.simps [of L p])
  next
    case False
    then show ?thesis
      using "1.prems" by (simp add: ParseInto_loop.simps [of L p])
  qed
qed

lemma ParseInto_loop_start:
  assumes "storedLines documentModel = []"
  shows "base_inv ((resetState (p0\<lparr> target := documentModel \<rparr>))
                 \<lparr> currentSection := None, currentLine := None,
                   parsePosition := 0, lineStart := 0 \<rparr>) \<and>
         top_sync ((resetState (p0\<lparr> target := documentModel \<rparr>))
                 \<lparr> currentSection := None, currentLine := None,
                   parsePosition := 0, lineStart := 0 \<rparr>)"
proof -
  let ?p2 = "(resetState (p0\<lparr> target := documentModel \<rparr>))
                 \<lparr> currentSection := None, currentLine := None,
                   parsePosition := 0, lineStart := 0 \<rparr>"
  have b: "base_inv ?p2"
    using assms
    by (simp add: base_inv_def span_inv_def kindsAndContents_def resetState_def lineFeeds_def)
  have "lx ?p2 = lexer_start" by (simp add: lx_def)
  then have t: "top_sync ?p2"
    by (simp add: top_sync_def lexer_start_def resetState_def)
  show ?thesis using b t by blast
qed

lemma ParseInto_lines_ok:
  assumes "storedLines documentModel = []"
  shows "\<forall>x \<in> set (kindsAndContents (ParseInto L documentModel p0)). line_ok x"
proof -
  let ?p1 = "(resetState (p0\<lparr> target := documentModel \<rparr>))
                 \<lparr> currentSection := None, currentLine := None \<rparr>"
  let ?p2 = "?p1\<lparr> parsePosition := 0, lineStart := 0 \<rparr>"
  let ?p3 = "ParseInto_loop L ?p2"
  have b: "base_inv ?p2" and t: "top_sync ?p2"
    using ParseInto_loop_start [OF assms, of p0] by simp_all
  have i: "base_inv ?p3" "top_sync ?p3" "fileEnd ?p3 \<le> parsePosition ?p3"
    using ParseInto_loop_inv [OF b t] by simp_all
  have e: "parsePosition ?p3 = fileEnd ?p3"
    using i(1,3) by (simp add: base_inv_def)
  have "lexed (fileContents ?p3) (lineStart ?p3) (parsePosition ?p3 + 1) = lx ?p3"
    using lexed_past_end [of "fileContents ?p3" "parsePosition ?p3 + 1" "lineStart ?p3"] e
    by (simp add: lx_def fileEnd_def)
  then have a: "\<not> lineIsMalformed ?p3 \<longrightarrow>
      assignments (lexed (fileContents ?p3) (lineStart ?p3) (parsePosition ?p3 + 1)) \<le> 1"
    using i(2) by (simp add: top_sync_def)
  have l: "\<forall>x \<in> set (kindsAndContents ?p3). line_ok x"
    using i(1) by (simp add: base_inv_def)
  show ?thesis
    using l submitLine_lines [OF l a, of L]
    by (simp add: ParseInto_def Let_def)
qed

lemma parsedLines_ok:
  assumes "l \<in> set (parsedLines L a bytes)" "Kind l \<noteq> Malformed"
  shows "equalsOutsideQuotesAndComments (definedBytes (Contents l)) \<le> 1"
proof -
  let ?p = "ParseInto L IniDocumentModel_empty (FileParser_new a bytes)"
  have "storedLines IniDocumentModel_empty = []"
    by (simp add: IniDocumentModel_empty_def)
  then have k: "\<forall>x \<in> set (kindsAndContents ?p). line_ok x"
    by (rule ParseInto_lines_ok)
  have "(Kind l, Contents l) \<in> set (kindsAndContents ?p)"
    using assms(1) by (auto simp: parsedLines_def parseDocument_def kindsAndContents_def)
  then show ?thesis
    using k assms(2) by (auto simp: line_ok_def)
qed

text \<open>
  The equals signs of a line that stand outside quotes, whether in a comment or not.
\<close>

fun countOutsideQuotes :: "bool \<Rightarrow> byte list \<Rightarrow> nat" where
  "countOutsideQuotes q [] = 0"
| "countOutsideQuotes q (c # cs) =
     (if q then countOutsideQuotes (c \<noteq> dquote) cs
      else if c = dquote then countOutsideQuotes True cs
      else (if c = CHR ''='' then 1 else 0) + countOutsideQuotes False cs)"

definition equalsOutsideQuotes :: "byte list \<Rightarrow> nat" where
  "equalsOutsideQuotes bytes = countOutsideQuotes False bytes"

text \<open>
  Claim C6, as amended.  Every logical line on which an equals sign outside quotes and
  comments is followed by a second equals sign outside quotes and comments is classified
  Malformed; the input \<open>Foo = Bar = Baz\<close> yields exactly one logical line, classified
  Malformed.
\<close>

theorem second_equals_malformed:
  "(\<forall>l \<in> set (parsedLines L a bytes).
      2 \<le> equalsOutsideQuotesAndComments (definedBytes (Contents l)) \<longrightarrow> Kind l = Malformed) \<and>
   map Kind (parsedLines lp64 1000 ''Foo = Bar = Baz'') = [Malformed]"
proof -
  have "Kind l = Malformed"
    if "l \<in> set (parsedLines L a bytes)"
      "2 \<le> equalsOutsideQuotesAndComments (definedBytes (Contents l))" for l
    using parsedLines_ok [OF that(1)] that(2) by fastforce
  moreover have "map Kind (parsedLines lp64 1000 ''Foo = Bar = Baz'') = [Malformed]"
    by code_simp
  ultimately show ?thesis by blast
qed

theorem second_equals_malformed_witness:
  "hd (parsedLines lp64 1000 (''a=b=c'' @ [newline]))
     \<in> set (parsedLines lp64 1000 (''a=b=c'' @ [newline])) \<and>
   2 \<le> equalsOutsideQuotesAndComments
         (definedBytes (Contents (hd (parsedLines lp64 1000 (''a=b=c'' @ [newline]))))) \<and>
   Kind (hd (parsedLines lp64 1000 (''a=b=c'' @ [newline]))) = Malformed"
proof -
  let ?ls = "parsedLines lp64 1000 (''a=b=c'' @ [newline])"
  have "length ?ls = 1" by code_simp
  then have m: "hd ?ls \<in> set ?ls" by (cases ?ls) simp_all
  have n: "2 \<le> equalsOutsideQuotesAndComments (definedBytes (Contents (hd ?ls)))"
    by code_simp
  show ?thesis
    using m n second_equals_malformed [of lp64 1000 "''a=b=c'' @ [newline]"] by blast
qed

text \<open>
  Claim C6, as stated, counts every equals sign outside quotes.  The second equals sign
  of the line \<open>a=b;=\<close> stands in a comment, outside quotes, and the line is a Property.
\<close>

theorem second_equals_in_comment_counterexample:
  "\<not> (\<forall>l \<in> set (parsedLines lp64 1000 (''a=b;='' @ [newline])).
        2 \<le> equalsOutsideQuotes (definedBytes (Contents l)) \<longrightarrow> Kind l = Malformed)"
proof -
  let ?l = "\<lparr> Kind = Property,
        Contents = map Some (''a=b;='' @ [newline]), Length = 6,
        NameStartIndex = 0, NameLength = 1, ValueStartIndex = 2, ValueLength = 3 \<rparr>"
  have p: "parsedLines lp64 1000 (''a=b;='' @ [newline]) = [?l]"
    by code_simp
  have "equalsOutsideQuotes (definedBytes (Contents ?l)) = 2"
    by code_simp
  then show ?thesis
    unfolding p by simp
qed

section \<open>The lines that parsing stores\<close>

text \<open>What the lines of a document reconstruct: their contents, one after the other.\<close>

definition reconstruct :: "line list \<Rightarrow> byte option list" where
  "reconstruct ls = concat (map Contents ls)"

lemma copy_n_one_past_end:
  assumes "s \<le> length bytes"
  shows "copy_n bytes s (length bytes + 1 - s) = map Some (drop s bytes) @ [None]"
proof -
  have "length bytes + 1 - s = Suc (length bytes - s)" using assms by simp
  then have "copy_n bytes s (length bytes + 1 - s) =
      copy_n bytes s (length bytes - s) @ [readByte bytes (s + (length bytes - s))]"
    by (simp add: copy_n_def)
  moreover have "copy_n bytes s (length bytes - s) = map Some (take (length bytes - s) (drop s bytes))"
    using assms by (intro copy_n_inside) simp
  ultimately show ?thesis
    using assms by (simp add: readByte_def)
qed

lemma reconstruct_kindsAndContents:
  "reconstruct (map snd (storedLines (target p))) = concat (map snd (kindsAndContents p))"
  by (simp add: reconstruct_def kindsAndContents_def comp_def case_prod_beta)

lemma ParseInto_loop_fileContents:
  "fileContents (ParseInto_loop L p) = fileContents p"
proof (induction L p rule: ParseInto_loop.induct)
  case (1 L p)
  show ?case
  proof (cases "parsePosition p < fileEnd p")
    case True
    then show ?thesis
      using "1.IH" [OF True] ParseInto_body_progress [OF True, of L]
      by (simp add: ParseInto_loop.simps [of L p])
  next
    case False
    then show ?thesis by (simp add: ParseInto_loop.simps [of L p])
  qed
qed

text \<open>
  The state in which the loop of \<^verbatim>\<open>ParseInto\<close> ends on a buffer: the parse position
  is the end of the buffer, and the stored lines hold the buffer up to the start of the
  current line, which has no line feed in it.
\<close>

lemma ParseInto_loop_end:
  fixes L a bytes
  defines "p \<equiv> ParseInto_loop L
      ((resetState ((FileParser_new a bytes)\<lparr> target := IniDocumentModel_empty \<rparr>))
         \<lparr> currentSection := None, currentLine := None, parsePosition := 0, lineStart := 0 \<rparr>)"
  shows "fileContents p = bytes \<and> parsePosition p = length bytes \<and>
         lineStart p \<le> length bytes \<and>
         (\<forall>i. lineStart p \<le> i \<and> i < length bytes \<longrightarrow> bytes ! i \<noteq> newline) \<and>
         (0 < lineStart p \<longrightarrow> bytes ! (lineStart p - 1) = newline) \<and>
         concat (map snd (kindsAndContents p)) = map Some (take (lineStart p) bytes) \<and>
         length (kindsAndContents p) = lineFeeds (take (lineStart p) bytes) \<and>
         (lineStart p = length bytes \<longleftrightarrow> bytes = [] \<or> last bytes = newline)"
proof -
  let ?p0 = "FileParser_new a bytes"
  let ?n = "length bytes"
  have e: "storedLines IniDocumentModel_empty = []"
    by (simp add: IniDocumentModel_empty_def)
  have i: "base_inv p" "fileEnd p \<le> parsePosition p"
    unfolding p_def
    using ParseInto_loop_inv [OF conjunct1 [OF ParseInto_loop_start [OF e, of ?p0]]
        conjunct2 [OF ParseInto_loop_start [OF e, of ?p0]], of L]
    by simp_all
  have c: "fileContents p = bytes"
    unfolding p_def by (simp add: ParseInto_loop_fileContents resetState_def FileParser_new_def)
  have pos: "parsePosition p = ?n" and ls: "lineStart p \<le> ?n"
    using i c by (simp_all add: base_inv_def fileEnd_def)
  have sp: "\<forall>i. lineStart p \<le> i \<and> i < ?n \<longrightarrow> bytes ! i \<noteq> newline"
    "0 < lineStart p \<longrightarrow> bytes ! (lineStart p - 1) = newline"
    "concat (map snd (kindsAndContents p)) = map Some (take (lineStart p) bytes)"
    "length (kindsAndContents p) = lineFeeds (take (lineStart p) bytes)"
    using i(1) c pos unfolding base_inv_def span_inv_def by simp_all
  have "lineStart p = ?n \<longleftrightarrow> bytes = [] \<or> last bytes = newline"
  proof (cases "bytes = []")
    case True
    then show ?thesis using ls by simp
  next
    case False
    then have l: "last bytes = bytes ! (?n - 1)" by (simp add: last_conv_nth)
    have n0: "0 < ?n" using False by simp
    show ?thesis
    proof
      assume "lineStart p = ?n"
      then show "bytes = [] \<or> last bytes = newline"
        using sp(2) l n0 by simp
    next
      assume "bytes = [] \<or> last bytes = newline"
      then have nl: "bytes ! (?n - 1) = newline" using False l by simp
      show "lineStart p = ?n"
      proof (rule ccontr)
        assume "lineStart p \<noteq> ?n"
        then have "lineStart p \<le> ?n - 1 \<and> ?n - 1 < ?n" using ls by linarith
        then show False using sp(1) nl by blast
      qed
    qed
  qed
  then show ?thesis using c pos ls sp by blast
qed

lemma parsedLines_unfold:
  fixes L a bytes
  defines "p \<equiv> ParseInto_loop L
      ((resetState ((FileParser_new a bytes)\<lparr> target := IniDocumentModel_empty \<rparr>))
         \<lparr> currentSection := None, currentLine := None, parsePosition := 0, lineStart := 0 \<rparr>)"
  shows "map (\<lambda>l. (Kind l, Contents l)) (parsedLines L a bytes) =
      (if lineStart p < length bytes then kindsAndContents (submitLine L p)
       else kindsAndContents p)"
proof -
  have "parsePosition p = length bytes"
    using ParseInto_loop_end [of L a bytes] unfolding p_def by blast
  then show ?thesis
    unfolding parsedLines_def parseDocument_def ParseInto_def Let_def p_def [symmetric]
    by (simp add: kindsAndContents_def case_prod_beta)
qed

text \<open>
  What the stored lines reconstruct, for every buffer: the buffer itself if it is empty
  or ends with a line feed, and otherwise the buffer and one byte more, read behind its
  end.
\<close>

lemma reconstruct_parsedLines:
  "reconstruct (parsedLines L a bytes) =
     (if bytes = [] \<or> last bytes = newline then map Some bytes else map Some bytes @ [None])"
proof -
  define p where "p = ParseInto_loop L
      ((resetState ((FileParser_new a bytes)\<lparr> target := IniDocumentModel_empty \<rparr>))
         \<lparr> currentSection := None, currentLine := None, parsePosition := 0, lineStart := 0 \<rparr>)"
  let ?n = "length bytes"
  have e: "fileContents p = bytes" "parsePosition p = ?n" "lineStart p \<le> ?n"
    "concat (map snd (kindsAndContents p)) = map Some (take (lineStart p) bytes)"
    "lineStart p = ?n \<longleftrightarrow> bytes = [] \<or> last bytes = newline"
    using ParseInto_loop_end [of L a bytes] unfolding p_def by blast+
  have u: "map (\<lambda>l. (Kind l, Contents l)) (parsedLines L a bytes) =
      (if lineStart p < ?n then kindsAndContents (submitLine L p) else kindsAndContents p)"
    using parsedLines_unfold [of L a bytes] unfolding p_def .
  have r: "reconstruct (parsedLines L a bytes) =
      concat (map snd (map (\<lambda>l. (Kind l, Contents l)) (parsedLines L a bytes)))"
    by (simp add: reconstruct_def comp_def)
  show ?thesis
  proof (cases "bytes = [] \<or> last bytes = newline")
    case True
    then have "lineStart p = ?n" using e(5) by blast
    then show ?thesis
      using True e(4) unfolding r u by simp
  next
    case False
    then have l: "lineStart p < ?n" using e(3,5) by linarith
    have "concat (map snd (kindsAndContents (submitLine L p))) =
        map Some (take (lineStart p) bytes) @
        copy_n bytes (lineStart p) (?n + 1 - lineStart p)"
      using e(1,2,4) by (simp add: kc_submitLine)
    also have "\<dots> = map Some (take (lineStart p) bytes) @ map Some (drop (lineStart p) bytes) @ [None]"
      using copy_n_one_past_end [OF e(3)] by simp
    also have "\<dots> = map Some bytes @ [None]"
      by (metis append.assoc append_take_drop_id map_append)
    finally show ?thesis
      using False l unfolding r u by simp
  qed
qed

text \<open>
  The number of the stored lines, for every buffer: one line for every line feed, and
  one more for the bytes behind the last line feed.  No line is ever split in two.
\<close>

lemma length_parsedLines:
  "length (parsedLines L a bytes) =
     lineFeeds bytes + (if bytes = [] \<or> last bytes = newline then 0 else 1)"
proof -
  define p where "p = ParseInto_loop L
      ((resetState ((FileParser_new a bytes)\<lparr> target := IniDocumentModel_empty \<rparr>))
         \<lparr> currentSection := None, currentLine := None, parsePosition := 0, lineStart := 0 \<rparr>)"
  let ?n = "length bytes"
  have e: "lineStart p \<le> ?n"
    "\<forall>i. lineStart p \<le> i \<and> i < ?n \<longrightarrow> bytes ! i \<noteq> newline"
    "length (kindsAndContents p) = lineFeeds (take (lineStart p) bytes)"
    "lineStart p = ?n \<longleftrightarrow> bytes = [] \<or> last bytes = newline"
    using ParseInto_loop_end [of L a bytes] unfolding p_def by blast+
  have u: "map (\<lambda>l. (Kind l, Contents l)) (parsedLines L a bytes) =
      (if lineStart p < ?n then kindsAndContents (submitLine L p) else kindsAndContents p)"
    using parsedLines_unfold [of L a bytes] unfolding p_def .
  have len: "length (parsedLines L a bytes) =
      length (map (\<lambda>l. (Kind l, Contents l)) (parsedLines L a bytes))"
    by simp
  have "lineFeeds (take (?n - lineStart p) (drop (lineStart p) bytes)) = 0"
    using lineFeeds_none [OF e(2)] by simp
  then have "lineFeeds (drop (lineStart p) bytes) = 0" by simp
  then have all: "lineFeeds bytes = lineFeeds (take (lineStart p) bytes)"
    using lineFeeds_append [of "take (lineStart p) bytes" "drop (lineStart p) bytes"] by simp
  show ?thesis
  proof (cases "bytes = [] \<or> last bytes = newline")
    case True
    then have "lineStart p = ?n" using e(4) by blast
    then show ?thesis
      using True e(3) unfolding len u by simp
  next
    case False
    then have l: "lineStart p < ?n" using e(1,4) by linarith
    show ?thesis
      using False l e(3) all unfolding len u by (simp add: kc_submitLine)
  qed
qed


section \<open>The document model and its section index\<close>

text \<open>
  \<^verbatim>\<open>allocateLine<TLine>\<close> of the document model: a block of its own for the record
  and the bytes of the line, entered in \<open>createdLinesMemory\<close>.  The offset of the bytes,
  \<^verbatim>\<open>(dummy + 1) - dummy\<close> in bytes, is the size of the record.
\<close>

definition allocateLine ::
  "type_layout \<Rightarrow> line_kind \<Rightarrow> byte list \<Rightarrow> IniDocumentModel \<Rightarrow> address \<times> IniDocumentModel" where
  "allocateLine TLine k contents d =
     (let alignedFooterOffset = sizeof TLine;
          newLine = BlockAddress (length (createdLinesMemory d))
      in (newLine,
          d\<lparr> storedLines := storedLines d @
                 [(newLine, \<lparr> Kind = k, Contents = map Some contents,
                     Length = length contents, NameStartIndex = 0, NameLength = 0,
                     ValueStartIndex = 0, ValueLength = 0 \<rparr>)],
             createdLinesMemory := createdLinesMemory d @
                 [alignedFooterOffset + length contents] \<rparr>))"

text \<open>
  The default constructor, where \<^verbatim>\<open>NUCLEX_SUPPORT_WIN32\<close> is not defined: one line
  that holds a line feed, and an empty section index.
\<close>

definition IniDocumentModel_default :: "layout \<Rightarrow> IniDocumentModel" where
  "IniDocumentModel_default L =
     (let (l, d) = allocateLine (Line_t L) Plain [newline] IniDocumentModel_empty
      in d\<lparr> firstLine := Some l \<rparr>)"

text \<open>
  \<^verbatim>\<open>getOrCreateDefaultSection\<close>.  The record type \<^verbatim>\<open>IndexedSection\<close> is declared in
  a header that is not among the sources, so that its layout is a parameter.  Nothing in
  the file parser calls this function.
\<close>

definition getOrCreateDefaultSection :: "type_layout \<Rightarrow> FileParser \<Rightarrow> address \<times> FileParser" where
  "getOrCreateDefaultSection IndexedSection_t p =
     (case sections (target p) [] of
        None \<Rightarrow>
          (let (newSection, p1) = allocateChunked IndexedSection_t 0 p
           in (newSection,
               p1\<lparr> target := (target p1)\<lparr> sections :=
                      (sections (target p1))([] \<mapsto> newSection) \<rparr> \<rparr>))
      | Some s \<Rightarrow> (s, p))"

lemma getOrCreateDefaultSection_creates:
  "sections (target (snd (getOrCreateDefaultSection T p))) [] \<noteq> None"
  by (auto simp: getOrCreateDefaultSection_def Let_def case_prod_beta split: option.splits)

text \<open>The file parser leaves the section index of its target as it finds it.\<close>

lemma sections_allocateLineChunked:
  "sections (target (snd (allocateLineChunked T k c n p))) = sections (target p)"
  by (simp add: allocateLineChunked_def allocateChunked_def placeLine_def Let_def case_prod_beta)

lemma sections_modifyLine:
  "sections (target (modifyLine a f p)) = sections (target p)"
  by (simp add: modifyLine_def)

lemma sections_submitLine:
  "sections (target (submitLine L p)) = sections (target p)"
proof -
  have r: "sections (target (resetState q)) = sections (target q)" for q
    by (simp add: resetState_def)
  show ?thesis
    unfolding submitLine_def Let_def r
    by (simp add: generatePropertyLine_def generateSectionLine_def Let_def case_prod_beta
          sections_modifyLine sections_allocateLineChunked)
qed

lemma sections_parseMalformedLine:
  "sections (target (parseMalformedLine p)) = sections (target p)"
proof -
  obtain k where "parseMalformedLine p = p\<lparr> lineIsMalformed := True, parsePosition := k \<rparr>"
    using parseMalformedLine_result by blast
  then show ?thesis by simp
qed

lemma sections_parseComment:
  "sections (target (parseComment p)) = sections (target p)"
proof -
  obtain k where "parseComment p = p\<lparr> parsePosition := k \<rparr>"
    using parseComment_result by blast
  then show ?thesis by simp
qed

lemma sections_parseName_body:
  assumes "parseName_body L flags p = Inl x \<or> parseName_body L flags p = Inr (flags', x)"
  shows "sections (target x) = sections (target p)"
  using assms
  by (auto simp: parseName_body_def nameIterationEnd_def Let_def sections_parseMalformedLine
        sections_submitLine split: if_splits prod.splits)

lemma sections_parseValue_body:
  assumes "parseValue_body flags p = Inl x \<or> parseValue_body flags p = Inr (flags', x)"
  shows "sections (target x) = sections (target p)"
  using assms
  by (auto simp: parseValue_body_def valueIterationEnd_def Let_def sections_parseMalformedLine
        sections_parseComment split: if_splits prod.splits)

lemma sections_parseName_loop:
  "sections (target (parseName_loop L flags p)) = sections (target p)"
proof (induction L flags p rule: parseName_loop.induct)
  case (1 L flags p)
  show ?case
  proof (cases "parsePosition p < fileEnd p")
    case False
    then show ?thesis by (simp add: parseName_loop.simps [of L flags p])
  next
    case True
    show ?thesis
    proof (cases "parseName_body L flags p")
      case (Inl x)
      then show ?thesis
        using True sections_parseName_body [of L flags p x]
        by (simp add: parseName_loop.simps [of L flags p])
    next
      case (Inr y)
      obtain flags' p' where y: "y = (flags', p')" by (cases y)
      show ?thesis
        using True Inr y "1.IH" [OF True Inr y [symmetric]]
          sections_parseName_body [of L flags p p' flags']
        by (simp add: parseName_loop.simps [of L flags p])
    qed
  qed
qed

lemma sections_parseValue_loop:
  "sections (target (parseValue_loop flags p)) = sections (target p)"
proof (induction flags p rule: parseValue_loop.induct)
  case (1 flags p)
  show ?case
  proof (cases "parsePosition p < fileEnd p")
    case False
    then show ?thesis by (simp add: parseValue_loop.simps [of flags p])
  next
    case True
    show ?thesis
    proof (cases "parseValue_body flags p")
      case (Inl x)
      then show ?thesis
        using True sections_parseValue_body [of flags p x]
        by (simp add: parseValue_loop.simps [of flags p])
    next
      case (Inr y)
      obtain flags' p' where y: "y = (flags', p')" by (cases y)
      show ?thesis
        using True Inr y "1.IH" [OF True Inr y [symmetric]]
          sections_parseValue_body [of flags p p' flags']
        by (simp add: parseValue_loop.simps [of flags p])
    qed
  qed
qed

lemma sections_ParseInto_body:
  "sections (target (ParseInto_body L p)) = sections (target p)"
  by (simp add: ParseInto_body_def Let_def sections_parseComment sections_parseMalformedLine
        sections_submitLine parseValue_def parseName_def sections_parseValue_loop
        sections_parseName_loop)

lemma sections_ParseInto_loop:
  "sections (target (ParseInto_loop L p)) = sections (target p)"
proof (induction L p rule: ParseInto_loop.induct)
  case (1 L p)
  show ?case
  proof (cases "parsePosition p < fileEnd p")
    case True
    then show ?thesis
      using "1.IH" [OF True] by (simp add: ParseInto_loop.simps [of L p] sections_ParseInto_body)
  next
    case False
    then show ?thesis by (simp add: ParseInto_loop.simps [of L p])
  qed
qed

lemma sections_ParseInto:
  "sections (target (ParseInto L documentModel p)) = sections documentModel"
  by (simp add: ParseInto_def Let_def sections_submitLine sections_ParseInto_loop resetState_def)

section \<open>The allocation state during parsing\<close>

text \<open>
  The allocation state is sound whenever the file parser allocates: the constructor makes
  it so, and every step of \<^verbatim>\<open>ParseInto\<close> keeps it so.
\<close>

lemma allocation_ok_allocateChunked:
  assumes "allocation_ok p" "0 < sizeof T"
  shows "allocation_ok (snd (allocateChunked T n p))"
proof -
  let ?s = "getSizePlusAlignmentPadding T + n"
  have pos: "0 < ?s"
    using assms(2) getSizePlusAlignmentPadding_ge [of T] by simp
  have inv: "remainingChunkByteCount p \<le> AllocationChunkSize"
    "0 < remainingChunkByteCount p \<longrightarrow> loadedLinesMemory (target p) \<noteq> []"
    "\<forall>chunk \<in> set (loadedLinesMemory (target p)). chunk = AllocationChunkSize"
    using assms(1) unfolding allocation_ok_def by blast+
  have ne: "loadedLinesMemory (target p) \<noteq> []" if "\<not> remainingChunkByteCount p < ?s"
  proof -
    have "0 < remainingChunkByteCount p" using that pos by linarith
    then show ?thesis using inv(2) by blast
  qed
  have le: "remainingChunkByteCount p - ?s \<le> AllocationChunkSize"
    using inv(1) by linarith
  show ?thesis
    using inv ne le unfolding allocation_ok_def
    by (simp add: allocateChunked_def Let_def)
qed

lemma allocation_ok_stored:
  "allocation_ok (placeLine a l p) = allocation_ok p"
  "allocation_ok (modifyLine a f p) = allocation_ok p"
  "allocation_ok (resetState p) = allocation_ok p"
  by (simp_all add: allocation_ok_def placeLine_def modifyLine_def resetState_def)

lemma allocation_ok_allocateLineChunked:
  assumes "allocation_ok p" "0 < sizeof T"
  shows "allocation_ok (snd (allocateLineChunked T k c n p))"
  using allocation_ok_allocateChunked [OF assms]
  by (simp add: allocateLineChunked_def Let_def case_prod_beta allocation_ok_stored)

lemma allocation_ok_submitLine:
  assumes "layout_ok L" "allocation_ok p"
  shows "allocation_ok (submitLine L p)"
proof -
  have sz: "0 < sizeof (Line_t L)" "0 < sizeof (SectionLine_t L)" "0 < sizeof (PropertyLine_t L)"
    using assms(1) by (simp_all add: layout_ok_def type_layout_ok_def)
  have q: "allocation_ok (p\<lparr> parsePosition := parsePosition p + 1 \<rparr>)"
    using assms(2) by (simp add: allocation_ok_def)
  show ?thesis
    unfolding submitLine_def Let_def allocation_ok_stored
    using allocation_ok_allocateLineChunked [OF q sz(1)]
      allocation_ok_allocateLineChunked [OF q sz(2)]
      allocation_ok_allocateLineChunked [OF q sz(3)]
    by (simp add: generatePropertyLine_def generateSectionLine_def Let_def case_prod_beta
          allocation_ok_stored)
qed

lemma allocation_ok_skip:
  "allocation_ok (parseMalformedLine p) = allocation_ok p"
  "allocation_ok (parseComment p) = allocation_ok p"
proof -
  obtain k where "parseMalformedLine p = p\<lparr> lineIsMalformed := True, parsePosition := k \<rparr>"
    using parseMalformedLine_result by blast
  then show "allocation_ok (parseMalformedLine p) = allocation_ok p"
    by (simp add: allocation_ok_def)
  obtain k where "parseComment p = p\<lparr> parsePosition := k \<rparr>"
    using parseComment_result by blast
  then show "allocation_ok (parseComment p) = allocation_ok p"
    by (simp add: allocation_ok_def)
qed

lemma allocation_ok_update:
  "allocation_ok (p\<lparr> parsePosition := a \<rparr>) = allocation_ok p"
  "allocation_ok (p\<lparr> nameStart := b \<rparr>) = allocation_ok p"
  "allocation_ok (p\<lparr> nameEnd := c \<rparr>) = allocation_ok p"
  "allocation_ok (p\<lparr> valueStart := d \<rparr>) = allocation_ok p"
  "allocation_ok (p\<lparr> valueEnd := e \<rparr>) = allocation_ok p"
  "allocation_ok (p\<lparr> sectionFound := f \<rparr>) = allocation_ok p"
  "allocation_ok (p\<lparr> equalsSignFound := g \<rparr>) = allocation_ok p"
  "allocation_ok (p\<lparr> lineIsMalformed := h \<rparr>) = allocation_ok p"
  by (simp_all add: allocation_ok_def)

lemma allocation_ok_parseName_body:
  assumes "layout_ok L" "allocation_ok p"
    "parseName_body L flags p = Inl x \<or> parseName_body L flags p = Inr (flags', x)"
  shows "allocation_ok x"
  using assms(3,2) allocation_ok_submitLine [OF assms(1,2)]
  by (auto simp: parseName_body_def nameIterationEnd_def Let_def allocation_ok_skip
        allocation_ok_update split: if_splits prod.splits)

lemma allocation_ok_parseValue_body:
  assumes "allocation_ok p"
    "parseValue_body flags p = Inl x \<or> parseValue_body flags p = Inr (flags', x)"
  shows "allocation_ok x"
  using assms(2,1)
  by (auto simp: parseValue_body_def valueIterationEnd_def Let_def allocation_ok_skip
        allocation_ok_update split: if_splits prod.splits)

lemma allocation_ok_parseName_loop:
  "layout_ok L \<Longrightarrow> allocation_ok p \<Longrightarrow> allocation_ok (parseName_loop L flags p)"
proof (induction L flags p rule: parseName_loop.induct)
  case (1 L flags p)
  show ?case
  proof (cases "parsePosition p < fileEnd p")
    case False
    then show ?thesis using "1.prems"(2) by (simp add: parseName_loop.simps [of L flags p])
  next
    case True
    show ?thesis
    proof (cases "parseName_body L flags p")
      case (Inl x)
      then show ?thesis
        using True allocation_ok_parseName_body [OF "1.prems"(1,2), of flags x]
        by (simp add: parseName_loop.simps [of L flags p])
    next
      case (Inr y)
      obtain flags' p' where y: "y = (flags', p')" by (cases y)
      have "allocation_ok p'"
        using allocation_ok_parseName_body [OF "1.prems"(1,2), of flags p' flags'] Inr y by simp
      then show ?thesis
        using True Inr y "1.IH" [OF True Inr y [symmetric] "1.prems"(1)]
        by (simp add: parseName_loop.simps [of L flags p])
    qed
  qed
qed

lemma allocation_ok_parseValue_loop:
  "allocation_ok p \<Longrightarrow> allocation_ok (parseValue_loop flags p)"
proof (induction flags p rule: parseValue_loop.induct)
  case (1 flags p)
  show ?case
  proof (cases "parsePosition p < fileEnd p")
    case False
    then show ?thesis using "1.prems" by (simp add: parseValue_loop.simps [of flags p])
  next
    case True
    show ?thesis
    proof (cases "parseValue_body flags p")
      case (Inl x)
      then show ?thesis
        using True allocation_ok_parseValue_body [OF "1.prems", of flags x]
        by (simp add: parseValue_loop.simps [of flags p])
    next
      case (Inr y)
      obtain flags' p' where y: "y = (flags', p')" by (cases y)
      have "allocation_ok p'"
        using allocation_ok_parseValue_body [OF "1.prems", of flags p' flags'] Inr y by simp
      then show ?thesis
        using True Inr y "1.IH" [OF True Inr y [symmetric]]
        by (simp add: parseValue_loop.simps [of flags p])
    qed
  qed
qed

lemma allocation_ok_ParseInto_body:
  assumes "layout_ok L" "allocation_ok p"
  shows "allocation_ok (ParseInto_body L p)"
  using assms(2) allocation_ok_submitLine [OF assms] allocation_ok_parseName_loop [OF assms]
    allocation_ok_parseValue_loop [OF assms(2)]
  by (simp add: ParseInto_body_def Let_def allocation_ok_skip allocation_ok_update
        parseName_def parseValue_def allocation_ok_def [of "p\<lparr> equalsSignFound := True,
          parsePosition := parsePosition p + 1 \<rparr>"])

lemma allocation_ok_ParseInto_loop:
  "layout_ok L \<Longrightarrow> allocation_ok p \<Longrightarrow> allocation_ok (ParseInto_loop L p)"
proof (induction L p rule: ParseInto_loop.induct)
  case (1 L p)
  show ?case
  proof (cases "parsePosition p < fileEnd p")
    case True
    then show ?thesis
      using "1.IH" [OF True "1.prems"(1) allocation_ok_ParseInto_body [OF "1.prems"(1,2)]]
      by (simp add: ParseInto_loop.simps [of L p])
  next
    case False
    then show ?thesis using "1.prems"(2) by (simp add: ParseInto_loop.simps [of L p])
  qed
qed

lemma allocation_ok_ParseInto:
  assumes "layout_ok L"
  shows "allocation_ok (ParseInto L IniDocumentModel_empty (FileParser_new a bytes))"
proof -
  let ?p2 = "(resetState ((FileParser_new a bytes)\<lparr> target := IniDocumentModel_empty \<rparr>))
                 \<lparr> currentSection := None, currentLine := None,
                   parsePosition := 0, lineStart := 0 \<rparr>"
  have "allocation_ok ?p2"
    by (simp add: allocation_ok_def resetState_def FileParser_new_def IniDocumentModel_empty_def)
  then have l: "allocation_ok (ParseInto_loop L ?p2)"
    by (rule allocation_ok_ParseInto_loop [OF assms])
  show ?thesis
    using l allocation_ok_submitLine [OF assms l]
    by (simp add: ParseInto_def Let_def)
qed

section \<open>Bytes inside quotes\<close>

text \<open>
  Inside a quote every byte but the double quote and the line feed is passed over: the
  end of the name or value moves on and nothing else changes.  A line feed inside a
  quote makes the line malformed.
\<close>

lemma quoted_byte_in_name:
  assumes "current p \<noteq> dquote" "current p \<noteq> newline"
  shows "parseName_body L (True, quoteEncountered, isInSection) p =
     Inr ((True, quoteEncountered, isInSection),
          p\<lparr> nameEnd := Some (parsePosition p), parsePosition := parsePosition p + 1 \<rparr>)"
  using assms by (simp add: parseName_body_def nameIterationEnd_def Let_def)

lemma quoted_byte_in_value:
  assumes "current p \<noteq> dquote" "current p \<noteq> newline"
  shows "parseValue_body (True, quoteEncountered) p =
     Inr ((True, quoteEncountered),
          p\<lparr> valueEnd := Some (parsePosition p), parsePosition := parsePosition p + 1 \<rparr>)"
  using assms by (simp add: parseValue_body_def valueIterationEnd_def Let_def)

lemma line_feed_in_quoted_name:
  assumes "current p = newline"
  shows "parseName_body L (True, quoteEncountered, isInSection) p =
     Inl (p\<lparr> nameEnd := Some (parsePosition p), lineIsMalformed := True \<rparr>)"
  using assms by (simp add: parseName_body_def nameIterationEnd_def Let_def newline_def dquote_def)

lemma line_feed_in_quoted_value:
  assumes "current p = newline"
  shows "parseValue_body (True, quoteEncountered) p =
     Inl (p\<lparr> valueEnd := Some (parsePosition p), lineIsMalformed := True \<rparr>)"
  using assms by (simp add: parseValue_body_def valueIterationEnd_def Let_def newline_def dquote_def)

text \<open>
  At the end of the buffer the loops end without a look at the quote.
\<close>

lemma end_of_file_in_name:
  assumes "fileEnd p \<le> parsePosition p"
  shows "parseName_loop L flags p = p"
  using assms by (simp add: parseName_loop.simps [of L flags p])

lemma end_of_file_in_value:
  assumes "fileEnd p \<le> parsePosition p"
  shows "parseValue_loop flags p = p"
  using assms by (simp add: parseValue_loop.simps [of flags p])

section \<open>The parser on the inputs of the source's table\<close>

text \<open>
  Claim C1.  The buffer that holds the one byte \<open>a\<close> and no line break: the parser
  stores one line of the length 2, whose second byte was read behind the end of the
  buffer, so that the reconstruction has two bytes where the buffer has one.
\<close>

theorem roundtrip_without_final_newline:
  "map Length (parsedLines lp64 1000 ''a'') = [2] \<and>
   reconstruct (parsedLines lp64 1000 ''a'') = [Some CHR ''a'', None] \<and>
   reconstruct (parsedLines lp64 1000 ''a'') \<noteq> map Some ''a''"
  by code_simp

text \<open>
  Claim C2.  On the buffer \<open>a\<close> the estimator ends one Plain line of one byte and
  returns 33; the parser stores one Plain line of two bytes and takes 34 bytes of a
  chunk of 4096 bytes.  On the buffer \<open>[A][B]\<close> with a line feed the estimator ends
  two Section lines, the parser stores one Malformed line.
\<close>

theorem estimator_and_parser_differ:
  "endedLines (estimateScan lp64 1000 ''a'') = [(Plain, 1)] \<and>
   map (\<lambda>l. (Kind l, Length l)) (parsedLines lp64 1000 ''a'') = [(Plain, 2)] \<and>
   estimateRequiredMemory lp64 1000 ''a'' = 33 \<and>
   loadedLinesMemory (parseDocument lp64 1000 ''a'') = [4096] \<and>
   AllocationChunkSize -
     remainingChunkByteCount (ParseInto lp64 IniDocumentModel_empty (FileParser_new 1000 ''a''))
     = 34 \<and>
   endedLines (estimateScan lp64 1000 (''[A][B]'' @ [newline])) = [(Section, 3), (Section, 4)] \<and>
   map (\<lambda>l. (Kind l, Length l)) (parsedLines lp64 1000 (''[A][B]'' @ [newline]))
     = [(Malformed, 7)]"
  by code_simp

text \<open>
  Claim C3.  The buffer \<open>key=value\<close> of nine bytes, without a line break: the last
  and only line has the length 10, one byte more than the buffer holds.
\<close>

theorem final_line_exceeds_buffer:
  "map (\<lambda>l. (Kind l, Length l)) (parsedLines lp64 1000 ''key=value'') = [(Property, 10)] \<and>
   length ''key=value'' = 9 \<and>
   last (Contents (hd (parsedLines lp64 1000 ''key=value''))) = None"
  by code_simp

text \<open>
  Claim C4.  The input \<open>[Woop][Woop]\<close>, with or without a line feed behind it, yields
  one line, classified Malformed, and no entry of the section index.
\<close>

theorem two_sections_on_one_line:
  "map Kind (parsedLines lp64 1000 ''[Woop][Woop]'') = [Malformed] \<and>
   map Kind (parsedLines lp64 1000 (''[Woop][Woop]'' @ [newline])) = [Malformed] \<and>
   sections (parseDocument lp64 1000 ''[Woop][Woop]'') ''Woop'' = None \<and>
   sections (parseDocument lp64 1000 (''[Woop][Woop]'' @ [newline])) ''Woop'' = None"
  by code_simp

text \<open>
  Claim C7.  A quote that is still open at the end of the buffer: the line that holds a
  double quote and \<open>Hello\<close> is Plain, the line \<open>Foo = \<close> with a double quote and
  \<open>Bar\<close> is a Property.  With a line feed behind them both are Malformed.
\<close>

theorem open_quote_at_end_of_file:
  "map Kind (parsedLines lp64 1000 (dquote # ''Hello'')) = [Plain] \<and>
   map Kind (parsedLines lp64 1000 (''Foo = '' @ dquote # ''Bar'')) = [Property] \<and>
   map Kind (parsedLines lp64 1000 (dquote # ''Hello'' @ [newline])) = [Malformed] \<and>
   map Kind (parsedLines lp64 1000 (''Foo = '' @ dquote # ''Bar'' @ [newline])) = [Malformed]"
  by code_simp

text \<open>
  Claim C8.  The line \<open>a = b\<close> with a line feed has six bytes.  Its value starts at
  the index 4 and is given the length 5, the distance from the start of the name to the
  end of the value, so that the value span ends behind the line.
\<close>

theorem value_span_exceeds_line:
  "map (\<lambda>l. (Kind l, NameStartIndex l, NameLength l, ValueStartIndex l, ValueLength l, Length l))
     (parsedLines lp64 1000 (''a = b'' @ [newline])) = [(Property, 0, 1, 4, 5, 6)] \<and>
   map (\<lambda>l. ValueStartIndex l + ValueLength l \<le> Length l)
     (parsedLines lp64 1000 (''a = b'' @ [newline])) = [False]"
  by code_simp

text \<open>
  Claim C9.  The section index of the empty document has no entry for the unnamed
  section, and parsing enters none, whatever the buffer: the Property line \<open>a = b\<close>
  is stored and not registered.
\<close>

theorem no_global_section:
  "sections (IniDocumentModel_default L) [] = None \<and>
   sections (parseDocument L a bytes) [] = None \<and>
   sections (parseDocument lp64 1000 (''a = b'' @ [newline])) [] = None \<and>
   map Kind (parsedLines lp64 1000 (''a = b'' @ [newline])) = [Property]"
proof -
  have "sections (IniDocumentModel_default L) [] = None"
    by (simp add: IniDocumentModel_default_def allocateLine_def Let_def
          IniDocumentModel_empty_def)
  moreover have "sections (parseDocument L' a' bytes') [] = None" for L' a' bytes'
    by (simp add: parseDocument_def sections_ParseInto IniDocumentModel_empty_def)
  moreover have "map Kind (parsedLines lp64 1000 (''a = b'' @ [newline])) = [Property]"
    by code_simp
  ultimately show ?thesis by blast
qed

end
